theory Spec2Isabelle
  imports Complex_Main "HOL-Library.Log_Nat" "HOL-Library.Word"
begin

section \<open>JavaScript numbers and strings\<close>

text \<open>
  A JavaScript string is a sequence of 16-bit code units. Every number of the program is
  an IEEE 754 double. The variables of \<open>punycode.js\<close> hold integers, with one exception:
  \<open>adapt\<close> divides by \<open>DAMP\<close> without truncating, so its \<open>delta\<close> can carry a
  fraction. Integer-valued numbers are modelled as \<open>int\<close> (a double holds every integer
  of magnitude up to \<open>2 ^ 53\<close> exactly, and sums and products of the program stay below
  that for every string an engine can hold); a number that may carry a fraction is a
  \<open>rat\<close>, and every division is rounded to the nearest double by \<open>fl\<close>.
\<close>

type_synonym jsstring = "16 word list"

datatype error = UnpairedSurrogate | MalformedInput | Overflow | InvalidCodePoint

text \<open>
  \<open>exponent x\<close> is the binary exponent of a non-zero \<open>x\<close>, \<open>rne\<close> rounds to the nearest
  integer with ties to even, and \<open>fl\<close> rounds to 53 significant bits (the normal range
  of a double; the program neither overflows it nor reaches the subnormal numbers).
\<close>

definition exponent :: "rat \<Rightarrow> int" where
  "exponent x = (let (p, q) = quotient_of \<bar>x\<bar>; d = bitlen p - bitlen q
                 in if 2 powi d \<le> \<bar>x\<bar> then d else d - 1)"

definition rne :: "rat \<Rightarrow> int" where
  "rne x = (let f = \<lfloor>x\<rfloor>; r = x - of_int f
            in if r < 1 / 2 then f else if 1 / 2 < r then f + 1
               else if even f then f else f + 1)"

definition fl :: "rat \<Rightarrow> rat" where
  "fl x = (if x = 0 then 0
           else let u = 2 powi (exponent x - 52) in of_int (rne (x / u)) * u)"

text \<open>
  \<open>~~x\<close> is \<open>ToInt32\<close>: truncate towards zero, then wrap into the signed 32-bit range.
  \<open>~~(a / b)\<close> with \<open>b = 0\<close> is \<open>~~\<close> of an infinity or of NaN, which is 0.
\<close>

definition toInt32 :: "int \<Rightarrow> int" where
  "toInt32 z = (z + 2 ^ 31) mod 2 ^ 32 - 2 ^ 31"

definition trunc :: "rat \<Rightarrow> int" where
  "trunc x = (if 0 \<le> x then \<lfloor>x\<rfloor> else \<lceil>x\<rceil>)"

definition tilde_div :: "rat \<Rightarrow> rat \<Rightarrow> int" where
  "tilde_div a b = (if b = 0 then 0 else toInt32 (trunc (fl (a / b))))"

text \<open>\<open>a >> 1\<close>: \<open>ToInt32\<close>, then an arithmetic shift.\<close>

definition sar1 :: "int \<Rightarrow> int" where
  "sar1 a = toInt32 a div 2"

text \<open>\<open>a % b\<close> on integers: the remainder has the sign of the dividend.\<close>

definition js_rem :: "int \<Rightarrow> int \<Rightarrow> int" where
  "js_rem a b = sgn a * (\<bar>a\<bar> mod \<bar>b\<bar>)"

definition MAX_INTEGER :: int where [simp]: "MAX_INTEGER = 2147483647"
definition BASE :: int where [simp]: "BASE = 36"
definition TMIN :: int where [simp]: "TMIN = 1"
definition TMAX :: int where [simp]: "TMAX = 26"
definition SKEW :: int where [simp]: "SKEW = 38"
definition DAMP :: int where [simp]: "DAMP = 700"
definition INITIAL_BIAS :: int where [simp]: "INITIAL_BIAS = 72"
definition INITIAL_N :: int where [simp]: "INITIAL_N = 128"
definition DELIMITER_CODE :: int where [simp]: "DELIMITER_CODE = 45"

subsection \<open>Rounding: bounds, monotonicity, exactness\<close>

lemma exponent_bounds:
  assumes "x \<noteq> 0"
  shows "2 powi exponent x \<le> \<bar>x\<bar>" and "\<bar>x\<bar> < 2 powi (exponent x + 1)"
proof -
  obtain p q where pq: "quotient_of \<bar>x\<bar> = (p, q)" by (cases "quotient_of \<bar>x\<bar>")
  have q: "0 < q" using pq by (rule quotient_of_denom_pos)
  have x: "\<bar>x\<bar> = of_int p / of_int q" using pq by (rule quotient_of_div)
  have "0 < \<bar>x\<bar>" using assms by simp
  then have p: "0 < p" using q x by (simp add: zero_less_divide_iff)
  define bp where "bp = bitlen p"
  define bq where "bq = bitlen q"
  have bp1: "1 \<le> bp" using p bitlen_eq_zero_iff[of p] bitlen_nonneg[of p] by (simp add: bp_def)
  have bq1: "1 \<le> bq" using q bitlen_eq_zero_iff[of q] bitlen_nonneg[of q] by (simp add: bq_def)
  have pb: "2 ^ nat (bp - 1) \<le> p" "p < 2 ^ nat bp"
    using bitlen_bounds[OF p] by (simp_all add: bp_def)
  have qb: "2 ^ nat (bq - 1) \<le> q" "q < 2 ^ nat bq"
    using bitlen_bounds[OF q] by (simp_all add: bq_def)
  have pr: "(2::rat) powi (bp - 1) \<le> of_int p" "of_int p < (2::rat) powi bp"
  proof -
    have "(of_int (2 ^ nat (bp - 1)) :: rat) \<le> of_int p" using pb(1) by (simp only: of_int_le_iff)
    then show "(2::rat) powi (bp - 1) \<le> of_int p" using bp1 by (simp add: power_int_def)
    have "(of_int p :: rat) < of_int (2 ^ nat bp)" using pb(2) by (simp only: of_int_less_iff)
    then show "of_int p < (2::rat) powi bp" using bp1 by (simp add: power_int_def)
  qed
  have qr: "(2::rat) powi (bq - 1) \<le> of_int q" "of_int q < (2::rat) powi bq"
  proof -
    have "(of_int (2 ^ nat (bq - 1)) :: rat) \<le> of_int q" using qb(1) by (simp only: of_int_le_iff)
    then show "(2::rat) powi (bq - 1) \<le> of_int q" using bq1 by (simp add: power_int_def)
    have "(of_int q :: rat) < of_int (2 ^ nat bq)" using qb(2) by (simp only: of_int_less_iff)
    then show "of_int q < (2::rat) powi bq" using bq1 by (simp add: power_int_def)
  qed
  have qpos: "(0::rat) < of_int q" using q by simp
  have lo: "(2::rat) powi (bp - bq - 1) < \<bar>x\<bar>"
  proof -
    have "(2::rat) powi (bp - bq - 1) * of_int q < 2 powi (bp - bq - 1) * 2 powi bq"
      using qr(2) by (simp add: mult_strict_left_mono)
    also have "\<dots> = 2 powi (bp - 1)" by (simp add: power_int_add[symmetric])
    also have "\<dots> \<le> of_int p" by (rule pr(1))
    finally show ?thesis using qpos by (simp add: x pos_less_divide_eq)
  qed
  have hi: "\<bar>x\<bar> < (2::rat) powi (bp - bq + 1)"
  proof -
    have "of_int p < (2::rat) powi bp" by (rule pr(2))
    also have "\<dots> = 2 powi (bp - bq + 1) * 2 powi (bq - 1)" by (simp add: power_int_add[symmetric])
    also have "\<dots> \<le> 2 powi (bp - bq + 1) * of_int q"
      using qr(1) by (simp add: mult_left_mono)
    finally show ?thesis using qpos by (simp add: x pos_divide_less_eq)
  qed
  have e: "exponent x = (if 2 powi (bp - bq) \<le> \<bar>x\<bar> then bp - bq else bp - bq - 1)"
    by (simp add: exponent_def pq bp_def bq_def Let_def)
  show "2 powi exponent x \<le> \<bar>x\<bar>" using lo by (simp add: e)
  show "\<bar>x\<bar> < 2 powi (exponent x + 1)" using hi by (auto simp add: e)
qed


lemma rne_bounds: "of_int (rne z) \<le> z + 1 / 2" "z - 1 / 2 \<le> of_int (rne z)"
  unfolding rne_def Let_def by (auto, linarith+)

lemma rne_of_int [simp]: "rne (of_int n) = n"
  by (simp add: rne_def)

lemma rne_mono: "x \<le> y \<Longrightarrow> rne x \<le> rne y"
proof -
  assume xy: "x \<le> y"
  have fm: "\<lfloor>x\<rfloor> \<le> \<lfloor>y\<rfloor>" using xy by (rule floor_mono)
  show ?thesis
  proof (cases "\<lfloor>x\<rfloor> = \<lfloor>y\<rfloor>")
    case True
    then show ?thesis using xy unfolding rne_def Let_def by auto
  next
    case False
    then have "\<lfloor>x\<rfloor> + 1 \<le> \<lfloor>y\<rfloor>" using fm by simp
    moreover have "rne x \<le> \<lfloor>x\<rfloor> + 1" unfolding rne_def Let_def by auto
    moreover have "\<lfloor>y\<rfloor> \<le> rne y" unfolding rne_def Let_def by auto
    ultimately show ?thesis by linarith
  qed
qed

lemma fl_0 [simp]: "fl 0 = 0"
  by (simp add: fl_def)

lemma fl_pos_bounds:
  assumes "0 < x"
  shows "2 powi exponent x \<le> fl x" and "fl x \<le> 2 powi (exponent x + 1)"
    and "fl x \<le> x + 2 powi (exponent x - 53)"
proof -
  define u :: rat where "u = 2 powi (exponent x - 52)"
  have u: "0 < u" by (simp add: u_def)
  have x0: "x \<noteq> 0" using assms by simp
  have f: "fl x = of_int (rne (x / u)) * u" using x0 by (simp add: fl_def u_def Let_def)
  have b: "2 powi exponent x \<le> x" "x < 2 powi (exponent x + 1)"
    using exponent_bounds[OF x0] assms by simp_all
  have e1: "(2::rat) powi exponent x = 2 ^ 52 * u"
    unfolding u_def by (simp add: power_int_diff)
  have e2: "(2::rat) powi (exponent x + 1) = 2 ^ 53 * u"
    unfolding u_def by (simp add: power_int_diff power_int_add)
  have e3: "(2::rat) powi (exponent x - 53) = u / 2"
    unfolding u_def by (simp add: power_int_diff)
  have "(2::rat) ^ 52 \<le> x / u" using b(1) u by (simp add: e1 pos_le_divide_eq)
  then have "rne (of_int (2 ^ 52)) \<le> rne (x / u)" by (intro rne_mono) simp
  then have "(2::int) ^ 52 \<le> rne (x / u)" by (simp only: rne_of_int)
  then have "(of_int (2 ^ 52) :: rat) \<le> of_int (rne (x / u))" by (simp only: of_int_le_iff)
  then show "2 powi exponent x \<le> fl x" using u by (simp add: e1 f)
  have "x / u \<le> (2::rat) ^ 53" using b(2) u by (simp add: e2 pos_divide_le_eq)
  then have "rne (x / u) \<le> rne (of_int (2 ^ 53))" by (intro rne_mono) simp
  then have "rne (x / u) \<le> (2::int) ^ 53" by (simp only: rne_of_int)
  then have "(of_int (rne (x / u)) :: rat) \<le> of_int (2 ^ 53)" by (simp only: of_int_le_iff)
  then show "fl x \<le> 2 powi (exponent x + 1)" using u by (simp add: e2 f)
  have "of_int (rne (x / u)) \<le> x / u + 1 / 2" by (rule rne_bounds)
  then have "of_int (rne (x / u)) * u \<le> (x / u + 1 / 2) * u"
    using u by (simp only: mult_le_cancel_right_pos)
  also have "(x / u + 1 / 2) * u = x + u / 2" using u by (simp add: field_simps)
  finally show "fl x \<le> x + 2 powi (exponent x - 53)" by (simp only: f e3)
qed

lemma fl_nonneg: "0 \<le> x \<Longrightarrow> 0 \<le> fl x"
proof (cases "x = 0")
  case False
  assume "0 \<le> x"
  then have "0 < x" using False by simp
  from fl_pos_bounds(1)[OF this] have "2 powi exponent x \<le> fl x" .
  moreover have "(0::rat) < 2 powi exponent x" by simp
  ultimately show ?thesis by linarith
qed simp

lemma fl_le_double: assumes "0 \<le> x" shows "fl x \<le> 2 * x"
proof (cases "x = 0")
  case False
  then have x: "0 < x" using assms by simp
  have "(2::rat) powi (exponent x - 53) \<le> 2 powi exponent x"
    by (rule power_int_increasing) simp_all
  also have "\<dots> \<le> x" using exponent_bounds(1)[of x] x by simp
  finally show ?thesis using fl_pos_bounds(3)[OF x] by linarith
qed simp

lemma exponent_mono: assumes "0 < x" "x \<le> y" shows "exponent x \<le> exponent y"
proof (rule ccontr)
  assume "\<not> exponent x \<le> exponent y"
  then have "exponent y + 1 \<le> exponent x" by simp
  then have "(2::rat) powi (exponent y + 1) \<le> 2 powi exponent x"
    by (intro power_int_increasing) simp_all
  moreover have "y < 2 powi (exponent y + 1)" using exponent_bounds(2)[of y] assms by simp
  moreover have "2 powi exponent x \<le> x" using exponent_bounds(1)[of x] assms by simp
  ultimately show False using assms by linarith
qed

lemma fl_mono: assumes "0 \<le> x" "x \<le> y" shows "fl x \<le> fl y"
proof (cases "x = 0")
  case True
  then show ?thesis using fl_nonneg[of y] assms by simp
next
  case False
  then have x: "0 < x" and y: "0 < y" using assms by simp_all
  show ?thesis
  proof (cases "exponent x = exponent y")
    case True
    have "x / 2 powi (exponent y - 52) \<le> y / 2 powi (exponent y - 52)"
      using assms(2) by (simp add: divide_right_mono)
    then have "rne (x / 2 powi (exponent y - 52)) \<le> rne (y / 2 powi (exponent y - 52))"
      by (rule rne_mono)
    then have "(of_int (rne (x / 2 powi (exponent y - 52))) :: rat)
        \<le> of_int (rne (y / 2 powi (exponent y - 52)))" by (simp only: of_int_le_iff)
    then show ?thesis using x y True by (simp add: fl_def Let_def mult_right_mono)
  next
    case False
    then have "exponent x + 1 \<le> exponent y" using exponent_mono[OF x assms(2)] by simp
    then have "(2::rat) powi (exponent x + 1) \<le> 2 powi exponent y"
      by (intro power_int_increasing) simp_all
    then show ?thesis using fl_pos_bounds(2)[OF x] fl_pos_bounds(1)[OF y] by linarith
  qed
qed

lemma fl_exact:
  assumes "\<bar>m\<bar> < 2 ^ 53"
  shows "fl (of_int m * 2 powi j) = of_int m * 2 powi j"
proof (cases "m = 0")
  case False
  define x :: rat where "x = of_int m * 2 powi j"
  have x0: "x \<noteq> 0" using False by (simp add: x_def)
  define e where "e = exponent x"
  have "2 powi e \<le> \<bar>x\<bar>" using exponent_bounds(1)[OF x0] by (simp add: e_def)
  also have "\<bar>x\<bar> = of_int \<bar>m\<bar> * 2 powi j" by (simp add: x_def abs_mult)
  also have "\<dots> < of_int (2 ^ 53) * 2 powi j"
    using assms by (intro mult_strict_right_mono) (simp_all only: of_int_less_iff, simp)
  also have "\<dots> = 2 powi (53 + j)" by (simp add: power_int_add)
  finally have "(2::rat) powi e < 2 powi (53 + j)" .
  then have "e < 53 + j"
  proof -
    assume lt: "(2::rat) powi e < 2 powi (53 + j)"
    show ?thesis
    proof (rule ccontr)
      assume "\<not> e < 53 + j"
      then have "(2::rat) powi (53 + j) \<le> 2 powi e"
        by (intro power_int_increasing) simp_all
      then show False using lt by simp
    qed
  qed
  then obtain d :: nat where d: "j - (e - 52) = int d"
    using nonneg_int_cases[of "j - (e - 52)"] by auto
  have "x / 2 powi (e - 52) = of_int m * 2 powi (j - (e - 52))"
    by (simp add: x_def power_int_diff)
  also have "\<dots> = of_int (m * 2 ^ d)" by (simp add: d power_int_of_nat)
  finally have q: "x / 2 powi (e - 52) = of_int (m * 2 ^ d)" .
  have "fl x = of_int (m * 2 ^ d) * 2 powi (e - 52)"
    using x0 by (simp add: fl_def Let_def e_def[symmetric] q del: of_int_mult)
  also have "\<dots> = x" using q[symmetric] by simp
  finally show ?thesis by (simp add: x_def)
qed simp

lemma toInt32_id: "- (2 ^ 31) \<le> z \<Longrightarrow> z < 2 ^ 31 \<Longrightarrow> toInt32 z = z"
  by (simp add: toInt32_def)

lemma toInt32_le: "- (2 ^ 31) \<le> z \<Longrightarrow> toInt32 z \<le> z"
proof -
  assume "- (2 ^ 31) \<le> z"
  then have "0 \<le> z + 2 ^ 31" by simp
  then have "(z + 2 ^ 31) mod 2 ^ 32 \<le> z + 2 ^ 31" by (rule zmod_le_nonneg_dividend)
  then show ?thesis by (simp add: toInt32_def)
qed

lemma tilde_div_le_double:
  assumes "0 \<le> a" "0 < b"
  shows "of_int (tilde_div a b) \<le> 2 * a / b"
proof -
  have nn: "0 \<le> a / b" using assms by simp
  have f0: "0 \<le> fl (a / b)" using nn by (rule fl_nonneg)
  have "tilde_div a b = toInt32 \<lfloor>fl (a / b)\<rfloor>"
    using assms f0 by (simp add: tilde_div_def trunc_def)
  also have "\<dots> \<le> \<lfloor>fl (a / b)\<rfloor>"
  proof (rule toInt32_le)
    have "(0::int) \<le> \<lfloor>fl (a / b)\<rfloor>" using f0 by simp
    moreover have "- (2 ^ 31) \<le> (0::int)" by simp
    ultimately show "- (2 ^ 31) \<le> \<lfloor>fl (a / b)\<rfloor>" by (rule order_trans[rotated])
  qed
  finally have "(of_int (tilde_div a b) :: rat) \<le> of_int \<lfloor>fl (a / b)\<rfloor>"
    by (simp only: of_int_le_iff)
  also have "\<dots> \<le> fl (a / b)" by (rule of_int_floor_le)
  also have "\<dots> \<le> 2 * (a / b)" using nn by (rule fl_le_double)
  finally show ?thesis by simp
qed

subsection \<open>\<open>ucs2.decode\<close>, \<open>String.fromCodePoint\<close>, \<open>String.fromCharCode\<close>\<close>

text \<open>
  \<open>ucs2.decode\<close>: a high surrogate takes the next unit, whatever it is, as its low half;
  \<open>charCodeAt\<close> past the end is NaN and raises. A low surrogate met on its own is skipped.
\<close>

fun ucs2_decode :: "jsstring \<Rightarrow> error + int list" where
  "ucs2_decode [] = Inr []"
| "ucs2_decode [c] =
     (if 0xD800 \<le> uint c \<and> uint c \<le> 0xDBFF then Inl UnpairedSurrogate
      else if 0xDC00 \<le> uint c \<and> uint c \<le> 0xDFFF then Inr []
      else Inr [uint c])"
| "ucs2_decode (c # l # rest) =
     (if 0xD800 \<le> uint c \<and> uint c \<le> 0xDBFF then
        (case ucs2_decode rest of
           Inl e \<Rightarrow> Inl e
         | Inr out \<Rightarrow> Inr (((uint c - 0xD800) * 0x400 + (uint l - 0xDC00) + 0x10000) # out))
      else if 0xDC00 \<le> uint c \<and> uint c \<le> 0xDFFF then ucs2_decode (l # rest)
      else (case ucs2_decode (l # rest) of
              Inl e \<Rightarrow> Inl e
            | Inr out \<Rightarrow> Inr (uint c # out)))"

text \<open>
  \<open>String.fromCodePoint\<close> raises a RangeError outside \<open>0 .. 0x10FFFF\<close>. (The limit an
  engine puts on the number of arguments of a call, which \<open>...output\<close> can reach on very
  long strings, is not part of the model.)
\<close>

definition utf16 :: "int \<Rightarrow> jsstring" where
  "utf16 c = (if c < 0x10000 then [word_of_int c]
              else [word_of_int (0xD800 + (c - 0x10000) div 0x400),
                    word_of_int (0xDC00 + (c - 0x10000) mod 0x400)])"

fun fromCodePoint :: "int list \<Rightarrow> error + jsstring" where
  "fromCodePoint [] = Inr []"
| "fromCodePoint (c # cs) =
     (if c < 0 \<or> 0x10FFFF < c then Inl InvalidCodePoint
      else (case fromCodePoint cs of
              Inl e \<Rightarrow> Inl e
            | Inr s \<Rightarrow> Inr (utf16 c @ s)))"

text \<open>\<open>String.fromCharCode\<close> takes every argument modulo \<open>2 ^ 16\<close>.\<close>

definition fromCharCode :: "int list \<Rightarrow> jsstring" where
  "fromCharCode cs = map word_of_int cs"


section \<open>The Bootstring codec\<close>

subsection \<open>\<open>adapt\<close>\<close>

text \<open>
  The loop of \<open>adapt\<close>: \<open>for (; delta > x; k += BASE) delta = ~~(delta / (BASE - TMIN))\<close>,
  with \<open>x = ~~(((BASE - TMIN) * TMAX) >> 1) = 455\<close>.
\<close>

definition adapt_x :: int where
  "adapt_x = toInt32 (sar1 ((BASE - TMIN) * TMAX))"

lemma adapt_x_eq: "adapt_x = 455"
  by (simp add: adapt_x_def sar1_def toInt32_def)

function adapt_loop :: "rat \<Rightarrow> int \<Rightarrow> rat \<times> int" where
  "adapt_loop delta k =
     (if of_int adapt_x < delta
      then adapt_loop (of_int (tilde_div delta (of_int (BASE - TMIN)))) (k + BASE)
      else (delta, k))"
  by pat_completeness auto
termination
proof (relation "measure (\<lambda>(delta, k). nat \<lfloor>delta\<rfloor>)")
  fix delta :: rat and k :: int
  assume "of_int adapt_x < delta"
  then have d: "455 < delta" by (simp add: adapt_x_eq)
  have "of_int (tilde_div delta 35) \<le> 2 * delta / 35"
    using tilde_div_le_double[of delta 35] d by simp
  also have "\<dots> < delta - 1" using d by simp
  finally have "of_int (tilde_div delta 35) < delta - 1" .
  also have "delta - 1 < of_int \<lfloor>delta\<rfloor>" by linarith
  finally have "tilde_div delta 35 < \<lfloor>delta\<rfloor>" by (simp only: of_int_less_iff)
  moreover have "0 < \<lfloor>delta\<rfloor>" using d by linarith
  ultimately show "((of_int (tilde_div delta (of_int (BASE - TMIN))), k + BASE), (delta, k))
      \<in> measure (\<lambda>(delta, k). nat \<lfloor>delta\<rfloor>)"
    by simp
qed simp

text \<open>
  \<open>delta / DAMP\<close> is not truncated in the source, so \<open>delta\<close> is a \<open>rat\<close> from there on;
  \<open>delta >> 1\<close> is an integer.
\<close>

definition adapt :: "int \<Rightarrow> int \<Rightarrow> bool \<Rightarrow> int" where
  "adapt delta numPoints firstTime =
     (let d0 = (if firstTime then fl (of_int delta / of_int DAMP) else of_int (sar1 delta));
          d1 = fl (d0 + of_int (tilde_div d0 (of_int numPoints)));
          (d2, k) = adapt_loop d1 0
      in k + tilde_div (fl (of_int (BASE - TMIN + 1) * d2)) (fl (d2 + of_int SKEW)))"

text \<open>
  The digit threshold, written out in both \<open>decode\<close> and \<open>encode\<close>:
  \<open>k <= bias + TMIN ? TMIN : (k >= bias + TMAX ? TMAX : k - bias)\<close>.
\<close>

definition threshold :: "int \<Rightarrow> int \<Rightarrow> int" where
  "threshold k bias =
     (if k \<le> bias + TMIN then TMIN else if bias + TMAX \<le> k then TMAX else k - bias)"

lemma threshold_bounds: "1 \<le> threshold k bias" "threshold k bias \<le> 26"
  by (simp_all add: threshold_def)


subsection \<open>\<open>decode\<close>\<close>

definition digit_of :: "int \<Rightarrow> int" where
  "digit_of c =
     (let d1 = c - (if 0x30 \<le> c \<and> c \<le> 0x39 then 0x16 else 0);
          d2 = d1 - (if 0x41 \<le> d1 \<and> d1 \<le> 0x5A then 0x41 else 0)
      in d2 - (if 0x61 \<le> d2 \<and> d2 \<le> 0x7A then 0x61 else 0))"

function decode_digits :: "int list \<Rightarrow> nat \<Rightarrow> int \<Rightarrow> int \<Rightarrow> int \<Rightarrow> int \<Rightarrow> error + int \<times> nat" where
  "decode_digits inp basic i k w bias =
     (if length inp \<le> basic then Inl MalformedInput
      else let digit = digit_of (inp ! basic) in
        if BASE \<le> digit \<or> tilde_div (of_int (MAX_INTEGER - i)) (of_int w) < digit
        then Inl Overflow
        else let i' = i + digit * w; t = threshold k bias in
          if digit < t then Inr (i', Suc basic)
          else let x = BASE - t in
            if tilde_div (of_int MAX_INTEGER) (of_int x) < w then Inl Overflow
            else decode_digits inp (Suc basic) i' (k + BASE) (w * x) bias)"
  by pat_completeness auto
termination
  by (relation "measure (\<lambda>(inp, basic, i, k, w, bias). length inp - basic)") auto

declare decode_digits.simps [simp del]

lemma decode_digits_advances:
  "decode_digits inp basic i k w bias = Inr (i', basic') \<Longrightarrow> basic < basic' \<and> basic' \<le> length inp"
proof (induction "length inp - basic" arbitrary: basic i k w)
  case 0
  then show ?case by (simp add: decode_digits.simps)
next
  case (Suc d)
  have step: "\<And>j kk ww. decode_digits inp (Suc basic) j kk ww bias = Inr (i', basic')
      \<Longrightarrow> Suc basic < basic' \<and> basic' \<le> length inp"
    using Suc.hyps(2) by (intro Suc.hyps(1)) simp
  show ?case
    using Suc.prems Suc.hyps(2)
    by (subst (asm) decode_digits.simps) (auto simp: Let_def split: if_splits dest!: step)
qed

definition js_splice :: "int list \<Rightarrow> int \<Rightarrow> int \<Rightarrow> int list" where
  "js_splice xs i v =
     (let len = int (length xs);
          start = (if i < 0 then max (len + i) 0 else min i len)
      in take (nat start) xs @ v # drop (nat start) xs)"

function decode_loop :: "int list \<Rightarrow> nat \<Rightarrow> int \<Rightarrow> int \<Rightarrow> int \<Rightarrow> int list \<Rightarrow> error + int list" where
  "decode_loop inp basic i bias n output =
     (if basic < length inp then
        (case decode_digits inp basic i BASE 1 bias of
           Inl e \<Rightarrow> Inl e
         | Inr (i1, basic1) \<Rightarrow>
             let out = int (length output) + 1;
                 bias1 = adapt (i1 - i) out (i = 0)
             in if MAX_INTEGER - n < tilde_div (of_int i1) (of_int out) then Inl Overflow
                else let n1 = n + tilde_div (of_int i1) (of_int out);
                         i2 = js_rem i1 out
                     in decode_loop inp basic1 (i2 + 1) bias1 n1 (js_splice output i2 n1))
      else Inr output)"
  by pat_completeness auto
termination
  by (relation "measure (\<lambda>(inp, basic, i, bias, n, output). length inp - basic)")
     (auto dest!: decode_digits_advances)

declare decode_loop.simps [simp del]

fun lastIndexOf :: "jsstring \<Rightarrow> 16 word \<Rightarrow> int" where
  "lastIndexOf [] c = - 1"
| "lastIndexOf (x # xs) c =
     (let r = lastIndexOf xs c in if 0 \<le> r then r + 1 else if x = c then 0 else - 1)"

definition decode :: "jsstring \<Rightarrow> error + jsstring" where
  "decode input =
     (if input = [] then Inr []
      else let basic = nat (lastIndexOf input 0x2D + 1);
               inp = map uint input;
               output = take (if basic \<noteq> 0 then basic - 1 else 0) inp
           in case decode_loop inp basic 0 INITIAL_BIAS INITIAL_N output of
                Inl e \<Rightarrow> Inl e
              | Inr out \<Rightarrow> fromCodePoint out)"

subsection \<open>\<open>encode\<close>\<close>

text \<open>
  The digits pushed for one \<open>delta\<close>: the loop
  \<open>for (let k = BASE, q = delta; ; k += BASE)\<close> of \<open>encode\<close>.
\<close>

function encode_digits :: "int \<Rightarrow> int \<Rightarrow> int \<Rightarrow> int list" where
  "encode_digits k q bias =
     (let t = threshold k bias in
      if q < t then [q + (if q < 0x1A then 0x61 else 0x16)]
      else let d = t + js_rem (q - t) (BASE - t)
           in (d + (if d < 0x1A then 0x61 else 0x16))
              # encode_digits (k + BASE) (tilde_div (of_int (q - t)) (of_int (BASE - t))) bias)"
  by pat_completeness auto
termination
proof (relation "measure (\<lambda>(k, q, bias). nat q)")
  fix k q bias t :: int
  assume t: "t = threshold k bias" and q: "\<not> q < t"
  have tb: "1 \<le> t" "t \<le> 26" using threshold_bounds[of k bias] by (simp_all add: t)
  have "of_int (tilde_div (of_int (q - t)) (of_int (BASE - t)))
      \<le> 2 * (of_int (q - t) :: rat) / of_int (BASE - t)"
    using q tb by (intro tilde_div_le_double) simp_all
  also have "\<dots> \<le> 2 * of_int (q - t) / 10"
    using q tb by (intro divide_left_mono) simp_all
  also have "\<dots> < of_int q" using q tb by simp
  finally have "tilde_div (of_int (q - t)) (of_int (BASE - t)) < q"
    by (simp only: of_int_less_iff)
  moreover have "0 < q" using q tb by simp
  ultimately show "((k + BASE, tilde_div (of_int (q - t)) (of_int (BASE - t)), bias), (k, q, bias))
      \<in> measure (\<lambda>(k, q, bias). nat q)"
    by simp
qed simp

declare encode_digits.simps [simp del]

record enc_state =
  e_output :: "int list"
  e_delta :: int
  e_bias :: int
  e_n :: int
  e_h :: int

text \<open>The callback of \<open>input.forEach\<close> in \<open>encode\<close>.\<close>

definition encode_each :: "int \<Rightarrow> int \<Rightarrow> enc_state \<Rightarrow> enc_state" where
  "encode_each basic c st =
     (let st1 = st\<lparr>e_delta := e_delta st + (if c < e_n st then 1 else 0)\<rparr> in
      if c = e_n st1 then
        st1\<lparr>e_output := e_output st1 @ encode_digits BASE (e_delta st1) (e_bias st1),
            e_bias := adapt (e_delta st1) (e_h st1 + 1) (e_h st1 = basic),
            e_delta := 0,
            e_h := e_h st1 + 1\<rparr>
      else st1)"

text \<open>
  The outer loop \<open>for (let h = basic, length = input.length; h < length; ++delta, ++n)\<close>.
  Nothing in the source bounds its iterations, so it is a partial function: \<open>None\<close> is
  a loop that never ends.
\<close>

partial_function (option) encode_loop :: "int list \<Rightarrow> int list \<Rightarrow> int \<Rightarrow> enc_state \<Rightarrow> enc_state option" where
  [code]: "encode_loop input nonBasic basic st =
     (if e_h st < int (length input) then
        encode_loop input nonBasic basic
          (let m = fold (\<lambda>code m. if e_n st \<le> code \<and> code < m then code else m) nonBasic 0x110000;
               st1 = st\<lparr>e_delta := e_delta st + (m - e_n st) * (e_h st + 1), e_n := m\<rparr>;
               st2 = fold (encode_each basic) input st1
           in st2\<lparr>e_delta := e_delta st2 + 1, e_n := e_n st2 + 1\<rparr>)
      else Some st)"

definition encode :: "jsstring \<Rightarrow> (error + jsstring) option" where
  "encode input =
     (if input = [] then Some (Inr [])
      else case ucs2_decode input of
             Inl e \<Rightarrow> Some (Inl e)
           | Inr cps \<Rightarrow>
               let output = filter (\<lambda>code. code < 0x80) cps;
                   nonBasic = filter (\<lambda>code. 0x80 \<le> code) cps;
                   basic = int (length output);
                   output1 = (if 0 < basic then output @ [DELIMITER_CODE] else output)
               in map_option (\<lambda>st. Inr (fromCharCode (e_output st)))
                    (encode_loop cps nonBasic basic
                       \<lparr>e_output = output1, e_delta = 0, e_bias = INITIAL_BIAS,
                        e_n = INITIAL_N, e_h = basic\<rparr>))"

subsection \<open>\<open>unicode\<close> and \<open>ascii\<close>\<close>

text \<open>\<open>input.split(sep)\<close> and \<open>labels.join(sep)\<close> for a one-unit separator.\<close>

fun js_split :: "16 word \<Rightarrow> jsstring \<Rightarrow> jsstring list" where
  "js_split sep [] = [[]]"
| "js_split sep (c # cs) =
     (let r = js_split sep cs in if c = sep then [] # r else (c # hd r) # tl r)"

fun js_join :: "16 word \<Rightarrow> jsstring list \<Rightarrow> jsstring" where
  "js_join sep [] = []"
| "js_join sep [l] = l"
| "js_join sep (l # ls) = l @ sep # js_join sep ls"

text \<open>
  \<open>Array.prototype.map\<close> with a callback that can raise: the first exception, from left to
  right, leaves the call.
\<close>

fun map_raise :: "('a \<Rightarrow> error + 'b) \<Rightarrow> 'a list \<Rightarrow> error + 'b list" where
  "map_raise f [] = Inr []"
| "map_raise f (x # xs) =
     (case f x of
        Inl e \<Rightarrow> Inl e
      | Inr y \<Rightarrow> (case map_raise f xs of Inl e \<Rightarrow> Inl e | Inr ys \<Rightarrow> Inr (y # ys)))"

text \<open>The same for a callback that can also fail to return (\<open>None\<close>).\<close>

fun map_raise_opt :: "('a \<Rightarrow> (error + 'b) option) \<Rightarrow> 'a list \<Rightarrow> (error + 'b list) option" where
  "map_raise_opt f [] = Some (Inr [])"
| "map_raise_opt f (x # xs) =
     (case f x of
        None \<Rightarrow> None
      | Some (Inl e) \<Rightarrow> Some (Inl e)
      | Some (Inr y) \<Rightarrow>
          (case map_raise_opt f xs of
             None \<Rightarrow> None
           | Some (Inl e) \<Rightarrow> Some (Inl e)
           | Some (Inr ys) \<Rightarrow> Some (Inr (y # ys))))"

text \<open>The units of an ASCII literal of the source, such as \<open>'xn--'\<close>.\<close>

definition js :: "string \<Rightarrow> jsstring" where
  "js s = map (\<lambda>c. of_nat (of_char c)) s"

text \<open>
  \<open>String.prototype.toLowerCase\<close> follows the Unicode case tables of the engine, which
  are not part of the repository: \<open>unicode\<close> takes it as the parameter \<open>toLowerCase\<close>.
  \<open>asciiLower\<close> is what it does on a string of ASCII units.
\<close>

definition asciiLower :: "jsstring \<Rightarrow> jsstring" where
  "asciiLower s = map (\<lambda>u. if 0x41 \<le> uint u \<and> uint u \<le> 0x5A then u + 0x20 else u) s"

text \<open>\<open>/^xn--/.test(domain)\<close> has no \<open>i\<close> flag; \<open>domain.substring(4)\<close> drops four units.\<close>

definition unicode :: "(jsstring \<Rightarrow> jsstring) \<Rightarrow> jsstring \<Rightarrow> error + jsstring" where
  "unicode toLowerCase input =
     (if input = [] then Inr []
      else case map_raise
                  (\<lambda>domain. if take 4 domain = js ''xn--''
                             then decode (toLowerCase (drop 4 domain)) else Inr domain)
                  (js_split 0x2E input) of
             Inl e \<Rightarrow> Inl e
           | Inr labels \<Rightarrow> Inr (js_join 0x2E labels))"

text \<open>\<open>/[^\0-\x7E]/g.test(domain)\<close>: some unit lies above \<open>0x7E\<close>.\<close>

definition ascii :: "jsstring \<Rightarrow> (error + jsstring) option" where
  "ascii input =
     (if input = [] then Some (Inr [])
      else case map_raise_opt
                  (\<lambda>domain. if list_ex (\<lambda>u. 0x7E < uint u) domain
                             then map_option (map_sum id (\<lambda>s. js ''xn--'' @ s)) (encode domain)
                             else Some (Inr domain))
                  (js_split 0x2E input) of
             None \<Rightarrow> None
           | Some (Inl e) \<Rightarrow> Some (Inl e)
           | Some (Inr labels) \<Rightarrow> Some (Inr (js_join 0x2E labels)))"

section \<open>The reference definition of the bias adaptation\<close>

text \<open>
  The bias adaptation as the specification words it (RFC 3492, section 3.4): every
  division is an integer division that truncates towards zero. It is the yardstick for
  \<open>adapt\<close>, not a translation of the source.
\<close>

definition tdiv :: "int \<Rightarrow> int \<Rightarrow> int" where
  "tdiv a b = sgn a * sgn b * (\<bar>a\<bar> div \<bar>b\<bar>)"

definition adapt_rfc_x :: int where
  "adapt_rfc_x = tdiv ((BASE - TMIN) * TMAX) 2"

lemma adapt_rfc_x_eq: "adapt_rfc_x = 455"
  by (simp add: adapt_rfc_x_def tdiv_def)

function adapt_rfc_loop :: "int \<Rightarrow> int \<Rightarrow> int \<times> int" where
  "adapt_rfc_loop delta k =
     (if adapt_rfc_x < delta then adapt_rfc_loop (tdiv delta (BASE - TMIN)) (k + BASE)
      else (delta, k))"
  by pat_completeness auto
termination
proof (relation "measure (\<lambda>(delta, k). nat delta)")
  fix delta k :: int
  assume "adapt_rfc_x < delta"
  then have d: "0 < delta" by (simp add: adapt_rfc_x_eq)
  then have "tdiv delta (BASE - TMIN) = delta div 35" by (simp add: tdiv_def)
  also have "\<dots> < delta" using d by (simp add: int_div_less_self)
  finally show "((tdiv delta (BASE - TMIN), k + BASE), (delta, k))
      \<in> measure (\<lambda>(delta, k). nat delta)"
    using d by simp
qed simp

declare adapt_rfc_loop.simps [simp del]

definition adapt_rfc :: "int \<Rightarrow> int \<Rightarrow> bool \<Rightarrow> int" where
  "adapt_rfc delta numPoints firstTime =
     (let d0 = (if firstTime then tdiv delta DAMP else tdiv delta 2);
          d1 = d0 + tdiv d0 numPoints;
          (d2, k) = adapt_rfc_loop d1 0
      in k + tdiv ((BASE - TMIN + 1) * d2) (d2 + SKEW))"


section \<open>Notions used in the statements and proofs\<close>

text \<open>
  A string has no unpaired surrogate half when every unit of \<open>0xD800 .. 0xDBFF\<close> is
  directly followed by a unit of \<open>0xDC00 .. 0xDFFF\<close>, and no unit of the latter range
  stands anywhere else.
\<close>

fun no_unpaired_surrogate :: "jsstring \<Rightarrow> bool" where
  "no_unpaired_surrogate [] = True"
| "no_unpaired_surrogate [c] = (\<not> (0xD800 \<le> uint c \<and> uint c \<le> 0xDFFF))"
| "no_unpaired_surrogate (c # l # rest) =
     (if 0xD800 \<le> uint c \<and> uint c \<le> 0xDBFF
      then 0xDC00 \<le> uint l \<and> uint l \<le> 0xDFFF \<and> no_unpaired_surrogate rest
      else \<not> (0xDC00 \<le> uint c \<and> uint c \<le> 0xDFFF) \<and> no_unpaired_surrogate (l # rest))"

text \<open>The character pushed for a digit value, and the characters that are digits.\<close>

definition digit_code :: "int \<Rightarrow> int" where
  "digit_code d = d + (if d < 0x1A then 0x61 else 0x16)"

definition is_digit_code :: "int \<Rightarrow> bool" where
  "is_digit_code c \<longleftrightarrow> (0x61 \<le> c \<and> c \<le> 0x7A) \<or> (0x30 \<le> c \<and> c \<le> 0x39)"

text \<open>
  A digit stream ends before a terminal digit is found when no digit of it is below the
  threshold of its position (\<open>k\<close> is the position counter of the first digit).
  \<open>guards_pass\<close> says, in exact integers, that the overflow guards of \<open>decode\<close> let
  every digit of the stream through: each digit is below \<open>BASE\<close>, the accumulated \<open>i\<close>
  stays within \<open>MAX_INTEGER\<close>, and so does the next weight \<open>w\<close>.
\<close>

fun no_terminal_digit :: "int list \<Rightarrow> int \<Rightarrow> int \<Rightarrow> bool" where
  "no_terminal_digit [] k bias = True"
| "no_terminal_digit (d # ds) k bias =
     (threshold k bias \<le> d \<and> no_terminal_digit ds (k + BASE) bias)"

fun guards_pass :: "int list \<Rightarrow> int \<Rightarrow> int \<Rightarrow> int \<Rightarrow> int \<Rightarrow> bool" where
  "guards_pass [] i k w bias = True"
| "guards_pass (d # ds) i k w bias =
     (d < BASE \<and> i + d * w \<le> MAX_INTEGER \<and> w * (BASE - threshold k bias) \<le> MAX_INTEGER
      \<and> guards_pass ds (i + d * w) (k + BASE) (w * (BASE - threshold k bias)) bias)"

text \<open>
  The relation between the encoder, which is scanning the code points \<open>xs @ ys\<close> and has
  passed \<open>xs\<close>, and the decoder that has read what the encoder has pushed so far:
  \<open>i_d\<close>, \<open>n_d\<close> and \<open>out_d\<close> are the decoder's \<open>i\<close>, \<open>n\<close> and \<open>output\<close>.
\<close>

definition sim :: "int \<Rightarrow> int list \<Rightarrow> int list \<Rightarrow> enc_state \<Rightarrow> int \<Rightarrow> int \<Rightarrow> int list \<Rightarrow> bool" where
  "sim basic xs ys st i_d n_d out_d \<longleftrightarrow>
     128 \<le> n_d \<and> n_d \<le> e_n st \<and> e_n st \<le> 0x110000
     \<and> out_d = filter (\<lambda>c. c \<le> e_n st) xs @ filter (\<lambda>c. c < e_n st) ys
     \<and> e_h st = int (length out_d) \<and> basic \<le> e_h st
     \<and> 0 \<le> e_delta st \<and> 0 \<le> i_d
     \<and> i_d + e_delta st
         = (e_n st - n_d) * (e_h st + 1) + int (length (filter (\<lambda>c. c \<le> e_n st) xs))
     \<and> (i_d = 0 \<longleftrightarrow> e_h st = basic)
     \<and> e_bias st \<le> 234"

section \<open>Properties of the wrappers' plumbing\<close>

lemma js_split_nonempty [simp]: "js_split sep xs \<noteq> []"
  by (induction xs) (simp_all add: Let_def)

lemma js_join_split: "js_join sep (js_split sep xs) = xs"
proof (induction xs)
  case Nil
  show ?case by simp
next
  case (Cons c cs)
  obtain l ls where r: "js_split sep cs = l # ls"
    using js_split_nonempty[of sep cs] by (cases "js_split sep cs") auto
  show ?case using Cons.IH by (cases ls) (simp_all add: r Let_def)
qed

lemma js_split_units: "l \<in> set (js_split sep xs) \<Longrightarrow> set l \<subseteq> set xs"
proof (induction xs arbitrary: l)
  case Nil
  then show ?case by simp
next
  case (Cons c cs)
  obtain l0 ls where r: "js_split sep cs = l0 # ls"
    using js_split_nonempty[of sep cs] by (cases "js_split sep cs") auto
  show ?case using Cons.prems Cons.IH[of l0] Cons.IH[of l]
    by (auto simp: r Let_def split: if_splits)
qed

lemma js_split_no_sep: "sep \<notin> set l \<Longrightarrow> js_split sep l = [l]"
  by (induction l) (auto simp: Let_def)

lemma js_split_append:
  "sep \<notin> set l \<Longrightarrow> js_split sep (l @ sep # rest) = l # js_split sep rest"
  by (induction l) (auto simp: Let_def)

lemma js_split_join:
  "ls \<noteq> [] \<Longrightarrow> \<forall>l\<in>set ls. sep \<notin> set l \<Longrightarrow> js_split sep (js_join sep ls) = ls"
proof (induction ls rule: js_join.induct[of _ sep])
  case (1 sep)
  then show ?case by simp
next
  case (2 sep l)
  then show ?case by (simp add: js_split_no_sep)
next
  case (3 sep l v va)
  then show ?case by (simp add: js_split_append)
qed

lemma map_raise_opt_pure:
  "\<forall>x\<in>set xs. f x = Some (Inr x) \<Longrightarrow> map_raise_opt f xs = Some (Inr xs)"
  by (induction xs) simp_all

lemma lastIndexOf_absent: "c \<notin> set xs \<Longrightarrow> lastIndexOf xs c = - 1"
  by (induction xs) (auto simp: Let_def)

lemma lastIndexOf_last:
  "c \<notin> set ys \<Longrightarrow> lastIndexOf (xs @ c # ys) c = int (length xs)"
  by (induction xs) (auto simp: Let_def lastIndexOf_absent)

lemma utf16_unit: "utf16 (uint (u :: 16 word)) = [u]"
proof -
  have "uint u < 2 ^ 16" using uint_bounded[of u] by simp
  then show ?thesis by (simp add: utf16_def)
qed

lemma fromCodePoint_units: "fromCodePoint (map uint (p :: jsstring)) = Inr p"
proof (induction p)
  case Nil
  show ?case by simp
next
  case (Cons u p)
  have "uint u < 2 ^ 16" using uint_bounded[of u] by simp
  then show ?case using Cons.IH by (simp add: utf16_unit)
qed

lemma map_raise_labels:
  assumes "\<forall>l\<in>set ls. P l \<longrightarrow> (\<exists>r. g l = Inr r)"
  shows "\<exists>ls'. map_raise (\<lambda>l. if P l then g l else Inr l) ls = Inr ls'
           \<and> length ls' = length ls
           \<and> (\<forall>i<length ls. if P (ls ! i) then g (ls ! i) = Inr (ls' ! i) else ls' ! i = ls ! i)"
  using assms
proof (induction ls)
  case Nil
  show ?case by simp
next
  case (Cons l ls)
  then obtain ls' where t: "map_raise (\<lambda>l. if P l then g l else Inr l) ls = Inr ls'"
      "length ls' = length ls"
      "\<forall>i<length ls. if P (ls ! i) then g (ls ! i) = Inr (ls' ! i) else ls' ! i = ls ! i"
    by auto
  obtain r where r: "(if P l then g l else Inr l) = Inr r"
    using Cons.prems by (cases "P l") auto
  have "map_raise (\<lambda>l. if P l then g l else Inr l) (l # ls) = Inr (r # ls')"
    using r t(1) by simp
  moreover have "length (r # ls') = length (l # ls)" using t(2) by simp
  moreover have "\<forall>i<length (l # ls). if P ((l # ls) ! i) then g ((l # ls) ! i) = Inr ((r # ls') ! i)
      else (r # ls') ! i = (l # ls) ! i"
  proof (intro allI impI)
    fix i assume "i < length (l # ls)"
    then show "if P ((l # ls) ! i) then g ((l # ls) ! i) = Inr ((r # ls') ! i)
      else (r # ls') ! i = (l # ls) ! i"
      using r t(3) by (cases i) (auto split: if_splits)
  qed
  ultimately show ?case by blast
qed

lemma js_join_empty:
  assumes "js_join sep ls = []"
  shows "ls = [] \<or> ls = [[]]"
proof (cases ls)
  case (Cons l ls')
  then show ?thesis using assms by (cases ls') simp_all
qed simp


lemma ascii_below_7F_unchanged:
  assumes "\<forall>u\<in>set x. uint u \<le> 0x7E"
  shows "ascii x = Some (Inr x)"
proof (cases "x = []")
  case True
  then show ?thesis by (simp add: ascii_def)
next
  case False
  let ?f = "\<lambda>domain. if list_ex (\<lambda>u. 0x7E < uint u) domain
                             then map_option (map_sum id (\<lambda>s. js ''xn--'' @ s)) (encode domain)
                             else Some (Inr domain)"
  have "\<forall>l\<in>set (js_split 0x2E x). ?f l = Some (Inr l)"
  proof
    fix l assume "l \<in> set (js_split 0x2E x)"
    then have "set l \<subseteq> set x" by (rule js_split_units)
    then have "\<forall>u\<in>set l. uint u \<le> 0x7E" using assms by blast
    then have "\<not> list_ex (\<lambda>u. 0x7E < uint u) l"
      by (fastforce simp: list_ex_iff)
    then show "?f l = Some (Inr l)" by simp
  qed
  then have "map_raise_opt ?f (js_split 0x2E x) = Some (Inr (js_split 0x2E x))"
    by (rule map_raise_opt_pure)
  then show ?thesis using False by (simp add: ascii_def js_join_split)
qed

section \<open>Quotients of integers are exact; a bound on the bias\<close>

lemma fl_of_int: "\<bar>m\<bar> < 2 ^ 53 \<Longrightarrow> fl (of_int m) = of_int m"
  using fl_exact[of m 0] by simp

lemma fl_le_int:
  assumes "0 \<le> x" "x \<le> of_int m" "\<bar>m\<bar> < 2 ^ 53"
  shows "fl x \<le> of_int m"
proof -
  have "fl x \<le> fl (of_int m)" using assms(1,2) by (rule fl_mono)
  then show ?thesis using fl_of_int[OF assms(3)] by simp
qed

lemma fl_ge_int:
  assumes "0 \<le> m" "of_int m \<le> x" "\<bar>m\<bar> < 2 ^ 53"
  shows "of_int m \<le> fl x"
proof -
  have "fl (of_int m) \<le> fl x" using assms(1,2) by (intro fl_mono) simp_all
  then show ?thesis using fl_of_int[OF assms(3)] by simp
qed

lemma trunc_fl_int:
  assumes a: "0 \<le> a" and b: "0 < b" and ab: "a + b \<le> 2 ^ 52"
  shows "trunc (fl (of_int a / of_int b)) = a div b"
proof -
  define n where "n = a div b"
  define y :: rat where "y = of_int a / of_int b"
  have n0: "0 \<le> n" using a b by (simp add: n_def pos_imp_zdiv_nonneg_iff)
  have dm: "a = n * b + a mod b" by (simp add: n_def)
  have md: "0 \<le> a mod b" "a mod b < b" using b by simp_all
  have nb: "n * b \<le> a" using dm md by linarith
  have na: "n \<le> a"
  proof -
    have "n * 1 \<le> n * b" using n0 b by (intro mult_left_mono) simp_all
    then show ?thesis using nb by simp
  qed
  have y0: "0 \<le> y" using a b by (simp add: y_def)
  have bpos: "(0::rat) < of_int b" using b by simp
  have lo: "of_int n \<le> y"
  proof -
    have "(of_int (n * b) :: rat) \<le> of_int a" using nb by (simp only: of_int_le_iff)
    then show ?thesis using bpos by (simp add: y_def pos_le_divide_eq)
  qed
  have "\<bar>n\<bar> < 2 ^ 53" using n0 na a b ab by simp
  then have flo: "of_int n \<le> fl y" using n0 lo by (intro fl_ge_int) simp_all
  define j where "j = nat (bitlen b)"
  have bj: "b < 2 ^ j" "2 ^ j \<le> 2 * b"
  proof -
    have bl: "1 \<le> bitlen b" using b bitlen_eq_zero_iff[of b] bitlen_nonneg[of b] by simp
    show "b < 2 ^ j" using bitlen_bounds[OF b] by (simp add: j_def)
    have "(2::int) ^ j = 2 * 2 ^ nat (bitlen b - 1)"
      using bl by (simp add: j_def flip: power_Suc)
    then show "2 ^ j \<le> 2 * b" using bitlen_bounds[OF b] by simp
  qed
  define z where "z = (n + 1) * 2 ^ j - 1"
  have zb: "\<bar>z\<bar> < 2 ^ 53"
  proof -
    have "(n + 1) * 2 ^ j \<le> (n + 1) * (2 * b)" using n0 bj(2) by (intro mult_left_mono) simp_all
    also have "\<dots> = 2 * (n * b + b)" by (simp add: algebra_simps)
    also have "\<dots> \<le> 2 * (a + b)" using nb by simp
    also have "\<dots> \<le> 2 ^ 53" using ab by simp
    finally have "z < 2 ^ 53" by (simp add: z_def)
    moreover have "0 \<le> z"
    proof -
      have "(1::int) * 1 \<le> (n + 1) * 2 ^ j" using n0 by (intro mult_mono) simp_all
      then show ?thesis by (simp add: z_def)
    qed
    ultimately show ?thesis by simp
  qed
  have zv: "of_int z * 2 powi (- int j) = (of_int n + 1 - 1 / 2 ^ j :: rat)"
    by (simp add: z_def power_int_minus field_simps)
  have hi: "y \<le> of_int z * 2 powi (- int j)"
  proof -
    have "a < n * b + b" using dm md by linarith
    then have "a < (n + 1) * b" by (simp add: algebra_simps)
    then have "a + 1 \<le> (n + 1) * b" by simp
    then have "(of_int (a + 1) :: rat) \<le> of_int ((n + 1) * b)" by (simp only: of_int_le_iff)
    then have "y + 1 / of_int b \<le> of_int n + 1"
      using bpos by (simp add: y_def field_simps)
    moreover have "1 / (2::rat) ^ j \<le> 1 / of_int b"
    proof -
      have "(of_int b :: rat) \<le> of_int (2 ^ j)" using bj(1) by (simp only: of_int_le_iff)
      then show ?thesis using bpos by (intro divide_left_mono) simp_all
    qed
    ultimately show ?thesis by (simp add: zv)
  qed
  have "fl y \<le> fl (of_int z * 2 powi (- int j))" using y0 hi by (rule fl_mono)
  also have "\<dots> = of_int z * 2 powi (- int j)" using zb by (rule fl_exact)
  also have "\<dots> < of_int n + 1" by (simp add: zv)
  finally have fhi: "fl y < of_int n + 1" .
  have "\<lfloor>fl y\<rfloor> = n" using flo fhi by (simp add: floor_unique)
  moreover have "0 \<le> fl y" using y0 by (rule fl_nonneg)
  ultimately show ?thesis by (simp add: trunc_def y_def n_def)
qed

lemma tilde_div_int:
  assumes "0 \<le> a" "0 < b" "a + b \<le> 2 ^ 52" "a div b < 2 ^ 31"
  shows "tilde_div (of_int a) (of_int b) = a div b"
proof -
  have "0 \<le> a div b" using assms(1,2) by (simp add: pos_imp_zdiv_nonneg_iff)
  then have "toInt32 (a div b) = a div b" using assms(4) by (intro toInt32_id) simp_all
  then show ?thesis using assms by (simp add: tilde_div_def trunc_fl_int)
qed

lemma tilde_div_bounds:
  assumes "0 \<le> a" "0 < b" "a / b \<le> of_int M" "M < 2 ^ 31"
  shows "0 \<le> tilde_div a b" and "tilde_div a b \<le> M"
proof -
  have y0: "0 \<le> a / b" using assms(1,2) by simp
  then have M0: "0 \<le> M" using assms(3) by (meson of_int_0_le_iff order_trans)
  have f0: "0 \<le> fl (a / b)" using y0 by (rule fl_nonneg)
  have "\<bar>M\<bar> < 2 ^ 53" using M0 assms(4) by simp
  then have fM: "fl (a / b) \<le> of_int M" using y0 assms(3) by (intro fl_le_int)
  have t0: "0 \<le> \<lfloor>fl (a / b)\<rfloor>" using f0 by simp
  have tM: "\<lfloor>fl (a / b)\<rfloor> \<le> M" using fM by (simp add: floor_le_iff)
  have "tilde_div a b = toInt32 \<lfloor>fl (a / b)\<rfloor>"
    using assms(2) f0 by (simp add: tilde_div_def trunc_def)
  also have "\<dots> = \<lfloor>fl (a / b)\<rfloor>"
  proof (rule toInt32_id)
    have "- (2 ^ 31) \<le> (0::int)" by simp
    then show "- (2 ^ 31) \<le> \<lfloor>fl (a / b)\<rfloor>" using t0 by (rule order_trans)
    show "\<lfloor>fl (a / b)\<rfloor> < 2 ^ 31" using tM assms(4) by (rule le_less_trans)
  qed
  finally have e: "tilde_div a b = \<lfloor>fl (a / b)\<rfloor>" .
  show "0 \<le> tilde_div a b" using t0 by (simp add: e)
  show "tilde_div a b \<le> M" using tM by (simp add: e)
qed

lemma adapt_loop_bound:
  assumes "0 \<le> d" "d \<le> 455 * 35 ^ j" "j \<le> 5"
  shows "0 \<le> fst (adapt_loop d k) \<and> fst (adapt_loop d k) \<le> 455
         \<and> snd (adapt_loop d k) \<le> k + 36 * int j"
  using assms
proof (induction j arbitrary: d k)
  case 0
  then show ?case by (simp add: adapt_loop.simps adapt_x_eq)
next
  case (Suc j)
  show ?case
  proof (cases "455 < d")
    case False
    then show ?thesis using Suc.prems(1) by (simp add: adapt_loop.simps adapt_x_eq)
  next
    case True
    define M :: int where "M = 455 * 35 ^ j"
    have "j \<le> 4" using Suc.prems(3) by simp
    then have "(35::int) ^ j \<le> 35 ^ 4" by (intro power_increasing) simp_all
    then have M31: "M < 2 ^ 31" by (simp add: M_def)
    have "d / 35 \<le> of_int M" using Suc.prems(2) by (simp add: M_def)
    then have b: "0 \<le> tilde_div d 35" "tilde_div d 35 \<le> M"
      using tilde_div_bounds[of d 35 M] Suc.prems(1) M31 by simp_all
    have "0 \<le> (of_int (tilde_div d 35) :: rat)" using b(1) by simp
    moreover have "(of_int (tilde_div d 35) :: rat) \<le> 455 * 35 ^ j"
    proof -
      have "(of_int (tilde_div d 35) :: rat) \<le> of_int M" using b(2) by (simp only: of_int_le_iff)
      then show ?thesis by (simp add: M_def)
    qed
    ultimately have IH: "0 \<le> fst (adapt_loop (of_int (tilde_div d 35)) (k + 36))
        \<and> fst (adapt_loop (of_int (tilde_div d 35)) (k + 36)) \<le> 455
        \<and> snd (adapt_loop (of_int (tilde_div d 35)) (k + 36)) \<le> k + 36 + 36 * int j"
      using Suc.IH[of "of_int (tilde_div d 35)" "k + 36"] Suc.prems(3) by simp
    have "adapt_loop d k = adapt_loop (of_int (tilde_div d 35)) (k + 36)"
      using True by (subst adapt_loop.simps) (simp add: adapt_x_eq)
    then show ?thesis using IH by simp
  qed
qed

lemma adapt_last_range:
  assumes "of_int lo \<le> d" "d \<le> of_int hi" "0 \<le> lo" "hi \<le> 455" "36 * hi \<le> 54 * (lo + 38)"
  shows "tilde_div (fl (36 * d)) (fl (d + 38)) \<le> 54"
proof -
  have d0: "0 \<le> d" using assms(1,3) by (meson of_int_0_le_iff order_trans)
  have hi0: "0 \<le> hi" using d0 assms(2) by (meson of_int_0_le_iff order_trans)
  have "36 * d \<le> of_int (36 * hi)" using assms(2) by simp
  then have n1: "fl (36 * d) \<le> of_int (36 * hi)"
    using d0 hi0 assms(4) by (intro fl_le_int) simp_all
  have n0: "0 \<le> fl (36 * d)" using d0 by (intro fl_nonneg) simp
  have "of_int (lo + 38) \<le> d + 38" using assms(1) by simp
  then have m1: "of_int (lo + 38) \<le> fl (d + 38)"
    using assms(3,4) hi0 d0 assms(1,2) by (intro fl_ge_int) simp_all
  have m0: "(0::rat) < of_int (lo + 38)" using assms(3) by simp
  then have mpos: "0 < fl (d + 38)" using m1 by linarith
  have "fl (36 * d) / fl (d + 38) \<le> of_int (36 * hi) / of_int (lo + 38)"
    using n0 n1 m0 m1 mpos by (intro frac_le) simp_all
  also have "\<dots> \<le> 54"
  proof -
    have "(of_int (36 * hi) :: rat) \<le> of_int (54 * (lo + 38))"
      using assms(5) by (simp only: of_int_le_iff)
    then show ?thesis using m0 by (simp add: pos_divide_le_eq)
  qed
  finally have "fl (36 * d) / fl (d + 38) \<le> of_int 54" by simp
  then show ?thesis using tilde_div_bounds(2)[of "fl (36 * d)" "fl (d + 38)" 54] n0 mpos by simp
qed

lemma adapt_last_bound:
  assumes "0 \<le> d" "d \<le> 455"
  shows "tilde_div (fl (36 * d)) (fl (d + 38)) \<le> 54"
proof -
  consider "d \<le> 50" | "50 \<le> d" "d \<le> 100" | "100 \<le> d" "d \<le> 200"
    | "200 \<le> d" "d \<le> 300" | "300 \<le> d" by linarith
  then show ?thesis
  proof cases
    case 1
    then show ?thesis using adapt_last_range[of 0 d 50] assms by simp
  next
    case 2
    then show ?thesis using adapt_last_range[of 50 d 100] by simp
  next
    case 3
    then show ?thesis using adapt_last_range[of 100 d 200] by simp
  next
    case 4
    then show ?thesis using adapt_last_range[of 200 d 300] by simp
  next
    case 5
    then show ?thesis using adapt_last_range[of 300 d 455] assms by simp
  qed
qed

lemma sar1_nonneg: "0 \<le> a \<Longrightarrow> a < 2 ^ 31 \<Longrightarrow> sar1 a = a div 2"
  by (simp add: sar1_def toInt32_id)

lemma adapt_bound:
  assumes "0 \<le> delta" "delta \<le> MAX_INTEGER" "1 \<le> numPoints"
  shows "adapt delta numPoints firstTime \<le> 234"
proof -
  define d0 :: rat where
    "d0 = (if firstTime then fl (of_int delta / of_int DAMP) else of_int (sar1 delta))"
  define d1 where "d1 = fl (d0 + of_int (tilde_div d0 (of_int numPoints)))"
  have d0b: "0 \<le> d0 \<and> d0 \<le> of_int (2 ^ 30)"
  proof (cases firstTime)
    case True
    have "(of_int delta :: rat) \<le> of_int MAX_INTEGER" using assms(2) by (simp only: of_int_le_iff)
    then have "(of_int delta :: rat) / 700 \<le> of_int (2 ^ 30)" by simp
    then have "fl (of_int delta / 700) \<le> of_int (2 ^ 30)"
      using assms(1) by (intro fl_le_int) simp_all
    moreover have "0 \<le> fl (of_int delta / 700)" using assms(1) by (intro fl_nonneg) simp
    ultimately show ?thesis using True by (simp add: d0_def)
  next
    case False
    have "sar1 delta = delta div 2" using assms by (intro sar1_nonneg) simp_all
    moreover have "0 \<le> delta div 2" "delta div 2 \<le> 2 ^ 30" using assms by simp_all
    ultimately have "0 \<le> sar1 delta" "sar1 delta \<le> 2 ^ 30" by simp_all
    then have "(0::rat) \<le> of_int (sar1 delta)" "(of_int (sar1 delta) :: rat) \<le> of_int (2 ^ 30)"
      by (simp_all only: of_int_le_iff of_int_0_le_iff)
    then show ?thesis using False by (simp add: d0_def)
  qed
  have np: "(0::rat) < of_int numPoints" "(1::rat) \<le> of_int numPoints" using assms(3) by simp_all
  have "d0 / of_int numPoints \<le> d0" using d0b np
    by (simp add: pos_divide_le_eq mult_le_cancel_left1)
  then have "d0 / of_int numPoints \<le> of_int (2 ^ 30)" using d0b by linarith
  then have tb: "0 \<le> tilde_div d0 (of_int numPoints)" "tilde_div d0 (of_int numPoints) \<le> 2 ^ 30"
    using tilde_div_bounds[of d0 "of_int numPoints" "2 ^ 30"] d0b np(1) by simp_all
  have tbr: "(0::rat) \<le> of_int (tilde_div d0 (of_int numPoints))"
      "(of_int (tilde_div d0 (of_int numPoints)) :: rat) \<le> of_int (2 ^ 30)"
    using tb by (simp_all only: of_int_le_iff of_int_0_le_iff)
  have s0: "0 \<le> d0 + of_int (tilde_div d0 (of_int numPoints))" using d0b tbr by linarith
  have s1: "d0 + of_int (tilde_div d0 (of_int numPoints)) \<le> of_int (2 ^ 31)"
    using d0b tbr by simp
  have d1b: "0 \<le> d1" "d1 \<le> of_int (2 ^ 31)"
    unfolding d1_def using s0 s1 by (simp_all add: fl_nonneg fl_le_int del: of_int_power of_int_numeral)
  have "d1 \<le> 455 * 35 ^ 5" using d1b(2) by simp
  then have lb: "0 \<le> fst (adapt_loop d1 0)" "fst (adapt_loop d1 0) \<le> 455"
      "snd (adapt_loop d1 0) \<le> 180"
    using adapt_loop_bound[of d1 5 0] d1b(1) by simp_all
  have "adapt delta numPoints firstTime
      = snd (adapt_loop d1 0) + tilde_div (fl (36 * fst (adapt_loop d1 0))) (fl (fst (adapt_loop d1 0) + 38))"
    by (simp add: adapt_def Let_def d0_def d1_def case_prod_unfold)
  also have "\<dots> \<le> 180 + 54"
    using lb(3) adapt_last_bound[OF lb(1,2)] by linarith
  finally show ?thesis by simp
qed

section \<open>Decoding the digits of one delta\<close>

lemma digit_of_code: "0 \<le> d \<Longrightarrow> d \<le> 35 \<Longrightarrow> digit_of (digit_code d) = d"
  by (simp add: digit_of_def digit_code_def Let_def)

lemma int_div_le_self: "0 \<le> a \<Longrightarrow> 0 < b \<Longrightarrow> a div b \<le> (a::int)"
  using zdiv_mono2[of a 1 b] by simp

lemma int_le_div: "d * w \<le> a \<Longrightarrow> 0 < w \<Longrightarrow> d \<le> a div (w::int)"
  using zdiv_mono1[of "d * w" a w] by simp

lemma js_rem_nonneg: "0 \<le> a \<Longrightarrow> 0 < b \<Longrightarrow> js_rem a b = a mod b"
  by (cases "a = 0") (simp_all add: js_rem_def)

lemma encode_digits_unfold:
  assumes "0 \<le> q" "q \<le> MAX_INTEGER"
  shows "encode_digits k q bias =
     (if q < threshold k bias then [digit_code q]
      else digit_code (threshold k bias + (q - threshold k bias) mod (36 - threshold k bias))
           # encode_digits (k + 36) ((q - threshold k bias) div (36 - threshold k bias)) bias)"
proof (cases "q < threshold k bias")
  case True
  then show ?thesis by (subst encode_digits.simps) (simp add: Let_def digit_code_def)
next
  case False
  define t where "t = threshold k bias"
  have tb: "1 \<le> t" "t \<le> 26" using threshold_bounds[of k bias] by (simp_all add: t_def)
  have qt: "t \<le> q" using False by (simp add: t_def)
  have r: "js_rem (q - t) (36 - t) = (q - t) mod (36 - t)"
    using qt tb by (intro js_rem_nonneg) simp_all
  have "(q - t) div (36 - t) \<le> q - t" using qt tb by (intro int_div_le_self) simp_all
  then have dl: "(q - t) div (36 - t) < 2 ^ 31" using assms(2) tb by simp
  have "tilde_div (of_int (q - t)) (of_int (36 - t)) = (q - t) div (36 - t)"
    using qt tb assms(2) dl by (intro tilde_div_int) simp_all
  then have d: "tilde_div (of_int q - of_int t) (36 - of_int t) = (q - t) div (36 - t)" by simp
  show ?thesis using False
    by (subst encode_digits.simps) (simp add: Let_def digit_code_def t_def[symmetric] r d)
qed

lemma decode_encode_digits:
  assumes "0 \<le> q" "0 \<le> i" "1 \<le> w" "w \<le> MAX_INTEGER" "i + q * w \<le> MAX_INTEGER"
      and "bias \<le> 234" "k = 36 * (int j + 1)" "w \<le> 35 ^ j"
  shows "decode_digits (pre @ encode_digits k q bias @ rest) (length pre) i k w bias
         = Inr (i + q * w, length pre + length (encode_digits k q bias))"
  using assms
proof (induction "nat q" arbitrary: q i w k j pre rule: less_induct)
  case less
  define t where "t = threshold k bias"
  have tb: "1 \<le> t" "t \<le> 26" using threshold_bounds[of k bias] by (simp_all add: t_def)
  have qw: "q * w \<le> MAX_INTEGER" using less.prems(2,5) by linarith
  have "q * 1 \<le> q * w" using less.prems(1,3) by (intro mult_left_mono) simp_all
  then have qM: "q \<le> MAX_INTEGER" using qw by simp
  have td1: "tilde_div (of_int (MAX_INTEGER - i)) (of_int w) = (MAX_INTEGER - i) div w"
  proof (rule tilde_div_int)
    show "0 \<le> MAX_INTEGER - i" using less.prems(1,3,5) qw
      by (smt (verit) mult_nonneg_nonneg)
    show "0 < w" using less.prems(3) by simp
    show "MAX_INTEGER - i + w \<le> 2 ^ 52" using less.prems(2,4) by simp
    have "(MAX_INTEGER - i) div w \<le> MAX_INTEGER - i"
      using less.prems(3) \<open>0 \<le> MAX_INTEGER - i\<close> by (intro int_div_le_self) simp_all
    then show "(MAX_INTEGER - i) div w < 2 ^ 31" using less.prems(2) by simp
  qed
  have fits: "\<And>d. 0 \<le> d \<Longrightarrow> d \<le> q \<Longrightarrow> \<not> (MAX_INTEGER - i) div w < d"
  proof -
    fix d :: int assume d: "0 \<le> d" "d \<le> q"
    have "d * w \<le> q * w" using d less.prems(3) by (intro mult_right_mono) simp_all
    then have "d * w \<le> MAX_INTEGER - i" using less.prems(5) by linarith
    then have "d \<le> (MAX_INTEGER - i) div w"
      using less.prems(3) by (intro int_le_div) simp_all
    then show "\<not> (MAX_INTEGER - i) div w < d" by simp
  qed
  let ?inp = "pre @ encode_digits k q bias @ rest"
  show ?case
  proof (cases "q < t")
    case True
    have E: "encode_digits k q bias = [digit_code q]"
      using encode_digits_unfold[OF less.prems(1) qM, of k bias] True by (simp add: t_def)
    have dg: "digit_of (digit_code q) = q" using less.prems(1) True tb by (intro digit_of_code) simp_all
    show ?thesis
      using True fits[of q] less.prems(1) tb
      by (subst decode_digits.simps)
         (simp add: E Let_def nth_append dg td1[simplified] t_def[symmetric])
  next
    case False
    define x where "x = 36 - t"
    define r where "r = (q - t) mod x"
    define q' where "q' = (q - t) div x"
    define d where "d = t + r"
    have xb: "10 \<le> x" "x \<le> 35" using tb by (simp_all add: x_def)
    have qt: "t \<le> q" using False by simp
    have rb: "0 \<le> r" "r < x" using xb by (simp_all add: r_def)
    have dec: "q - t = q' * x + r" by (simp add: q'_def r_def)
    have q'0: "0 \<le> q'" using qt xb by (simp add: q'_def pos_imp_zdiv_nonneg_iff)
    have db: "0 \<le> d" "d \<le> 35" "t \<le> d" using tb rb by (simp_all add: d_def x_def)
    have dq: "d \<le> q"
    proof -
      have "0 \<le> q' * x" using q'0 xb by simp
      then show ?thesis using dec by (simp add: d_def)
    qed
    have E: "encode_digits k q bias = digit_code d # encode_digits (k + 36) q' bias"
      using encode_digits_unfold[OF less.prems(1) qM, of k bias] False
      by (simp add: t_def[symmetric] d_def r_def q'_def x_def)
    have dg: "digit_of (digit_code d) = d" using db by (intro digit_of_code)
    have wx: "w * x \<le> MAX_INTEGER"
    proof (cases "18 \<le> t")
      case True
      then have "x \<le> q" using qt by (simp add: x_def)
      then have "w * x \<le> w * q" using less.prems(3) by (intro mult_left_mono) simp_all
      then show ?thesis using qw by (simp add: mult.commute)
    next
      case False
      then have "k < bias + 18" by (simp add: t_def threshold_def split: if_splits)
      then have "36 * (int j + 1) < 252" using less.prems(6,7) by simp
      then have "j \<le> 5" by simp
      then have "(35::int) ^ j \<le> 35 ^ 5" by (intro power_increasing) simp_all
      then have "w \<le> 35 ^ 5" using less.prems(8) by simp
      then have "w * x \<le> 35 ^ 5 * 35" using xb less.prems(3) by (intro mult_mono) simp_all
      then show ?thesis by simp
    qed
    have "MAX_INTEGER div x \<le> MAX_INTEGER" using xb by (intro int_div_le_self) simp_all
    then have "MAX_INTEGER div x < 2 ^ 31" by simp
    then have td2: "tilde_div (of_int MAX_INTEGER) (of_int x) = MAX_INTEGER div x"
      using xb by (intro tilde_div_int) simp_all
    have wok: "\<not> MAX_INTEGER div x < w"
    proof -
      have "w * x div x \<le> MAX_INTEGER div x" using wx xb by (intro zdiv_mono1) simp_all
      then show ?thesis using xb by simp
    qed
    have step: "decode_digits (pre @ digit_code d # encode_digits (k + 36) q' bias @ rest)
          (length pre) i k w bias
        = decode_digits (pre @ digit_code d # encode_digits (k + 36) q' bias @ rest)
            (Suc (length pre)) (i + d * w) (k + 36) (w * x) bias"
      using fits[OF db(1) dq] db wok
      by (subst decode_digits.simps)
         (simp add: Let_def nth_append dg td1[simplified] td2[simplified] t_def[symmetric] x_def[symmetric])
    have lt: "nat q' < nat q"
    proof -
      have "q' \<le> q - t" using qt xb unfolding q'_def by (intro int_div_le_self) simp_all
      then show ?thesis using tb qt by simp
    qed
    have tot: "i + d * w + q' * (w * x) = i + q * w"
    proof -
      have "q = t + (q' * x + r)" using dec by simp
      then have "q * w = (d + q' * x) * w" by (simp add: d_def)
      then show ?thesis by (simp add: algebra_simps)
    qed
    have IH: "decode_digits ((pre @ [digit_code d]) @ encode_digits (k + 36) q' bias @ rest)
          (length (pre @ [digit_code d])) (i + d * w) (k + 36) (w * x) bias
        = Inr (i + d * w + q' * (w * x),
               length (pre @ [digit_code d]) + length (encode_digits (k + 36) q' bias))"
    proof (rule less.hyps[OF lt, where j = "Suc j"])
      show "0 \<le> q'" by (rule q'0)
      show "0 \<le> i + d * w" using less.prems(2,3) db(1) by simp
      show "1 \<le> w * x" using less.prems(3) xb by (smt (verit) mult_le_cancel_left1)
      show "w * x \<le> MAX_INTEGER" by (rule wx)
      show "i + d * w + q' * (w * x) \<le> MAX_INTEGER" using tot less.prems(5) by simp
      show "bias \<le> 234" by (rule less.prems(6))
      show "k + 36 = 36 * (int (Suc j) + 1)" using less.prems(7) by simp
      show "w * x \<le> 35 ^ Suc j"
      proof -
        have "w * x \<le> 35 ^ j * 35" using less.prems(3,8) xb by (intro mult_mono) simp_all
        then show ?thesis by simp
      qed
    qed
    show ?thesis using step IH by (simp add: E tot)
  qed
qed

lemma digit_code_is: "0 \<le> d \<Longrightarrow> d \<le> 35 \<Longrightarrow> is_digit_code (digit_code d)"
  by (simp add: is_digit_code_def digit_code_def)

lemma encode_digits_codes:
  assumes "0 \<le> q" "q \<le> MAX_INTEGER"
  shows "\<forall>c\<in>set (encode_digits k q bias). is_digit_code c"
  using assms
proof (induction "nat q" arbitrary: q k rule: less_induct)
  case less
  define t where "t = threshold k bias"
  have tb: "1 \<le> t" "t \<le> 26" using threshold_bounds[of k bias] by (simp_all add: t_def)
  show ?case
  proof (cases "q < t")
    case True
    then show ?thesis
      using encode_digits_unfold[OF less.prems, of k bias] less.prems(1) tb
      by (simp add: t_def digit_code_is)
  next
    case False
    define q' where "q' = (q - t) div (36 - t)"
    have q'0: "0 \<le> q'" using False tb by (simp add: q'_def pos_imp_zdiv_nonneg_iff)
    have q'l: "q' \<le> q - t" using False tb unfolding q'_def by (intro int_div_le_self) simp_all
    have lt: "nat q' < nat q" using q'l tb False by simp
    have "q' \<le> MAX_INTEGER" using q'l less.prems(2) tb by simp
    then have IH: "\<forall>c\<in>set (encode_digits (k + 36) q' bias). is_digit_code c"
      using less.hyps[OF lt q'0] by simp
    have "0 \<le> (q - t) mod (36 - t)" "(q - t) mod (36 - t) < 36 - t" using tb by simp_all
    then have "is_digit_code (digit_code (t + (q - t) mod (36 - t)))"
      using tb by (intro digit_code_is) linarith+
    then show ?thesis
      using encode_digits_unfold[OF less.prems, of k bias] False IH
      by (simp add: t_def[symmetric] q'_def)
  qed
qed

lemma encode_digits_nonempty: "encode_digits k q bias \<noteq> []"
  by (subst encode_digits.simps) (simp add: Let_def)

lemma div_mod_decomp_int:
  assumes "0 \<le> c" "c < b"
  shows "(a * b + c) div b = (a::int)" and "(a * b + c) mod b = c"
  using assms by (simp_all add: div_pos_pos_trivial)

lemma decode_loop_step:
  assumes "0 \<le> delta" "0 \<le> i" "i + delta = a * (int (length output) + 1) + c"
      and "0 \<le> c" "c \<le> int (length output)" "0 \<le> a"
      and "i + delta \<le> MAX_INTEGER" "bias \<le> 234" "n + a \<le> MAX_INTEGER"
      and "length output \<le> 1927"
  shows "decode_loop (pre @ encode_digits 36 delta bias @ rest) (length pre) i bias n output
       = decode_loop (pre @ encode_digits 36 delta bias @ rest)
           (length pre + length (encode_digits 36 delta bias))
           (c + 1) (adapt delta (int (length output) + 1) (i = 0)) (n + a)
           (take (nat c) output @ (n + a) # drop (nat c) output)"
proof -
  define out where "out = int (length output) + 1"
  let ?E = "encode_digits 36 delta bias"
  let ?inp = "pre @ ?E @ rest"
  have lt: "length pre < length ?inp" using encode_digits_nonempty[of 36 delta bias] by (cases ?E) simp_all
  have dd: "decode_digits ?inp (length pre) i 36 1 bias = Inr (i + delta, length pre + length ?E)"
    using decode_encode_digits[of delta i 1 bias 36 0 pre rest] assms by simp
  have outpos: "0 < out" by (simp add: out_def)
  have d: "(i + delta) div out = a" "(i + delta) mod out = c"
    using div_mod_decomp_int[of c out a] assms(3,4,5) by (simp_all add: out_def)
  have i1: "0 \<le> i + delta" using assms(1,2) by simp
  have td: "tilde_div (of_int (i + delta)) (of_int out) = a"
  proof -
    have "(i + delta) div out < 2 ^ 31"
      using int_div_le_self[OF i1 outpos] assms(7) by simp
    then have "tilde_div (of_int (i + delta)) (of_int out) = (i + delta) div out"
      using i1 outpos assms(7,10) by (intro tilde_div_int) (simp_all add: out_def)
    then show ?thesis by (simp add: d)
  qed
  have r: "js_rem (i + delta) out = c"
    using js_rem_nonneg[OF i1 outpos] d(2) by simp
  have sp: "js_splice output c (n + a) = take (nat c) output @ (n + a) # drop (nat c) output"
    using assms(4,5) by (simp add: js_splice_def Let_def min_def)
  have "decode_loop ?inp (length pre) i bias n output
      = decode_loop ?inp (length pre + length ?E) (c + 1)
          (adapt delta out (i = 0)) (n + a) (js_splice output c (n + a))"
    using lt assms(9) 
    by (subst decode_loop.simps)
       (simp add: dd Let_def td[unfolded out_def, simplified] r[unfolded out_def, simplified] out_def)
  then show ?thesis by (simp add: sp out_def)
qed

section \<open>The decoder follows the encoder\<close>

lemma simD:
  assumes "sim basic xs ys st i_d n_d out_d"
  shows "128 \<le> n_d" and "n_d \<le> e_n st" and "e_n st \<le> 0x110000"
    and "out_d = filter (\<lambda>c. c \<le> e_n st) xs @ filter (\<lambda>c. c < e_n st) ys"
    and "e_h st = int (length out_d)" and "basic \<le> e_h st"
    and "0 \<le> e_delta st" and "0 \<le> i_d"
    and "i_d + e_delta st
         = (e_n st - n_d) * (e_h st + 1) + int (length (filter (\<lambda>c. c \<le> e_n st) xs))"
    and "(i_d = 0) = (e_h st = basic)"
    and "e_bias st \<le> 234"
  using assms unfolding sim_def by blast+

lemma sim_emit:
  assumes valid: "\<forall>c\<in>set (xs @ e_n st # ys). 0 \<le> c \<and> c \<le> 0x10FFFF"
      and len: "length (xs @ e_n st # ys) \<le> 1927"
      and s: "sim basic xs (e_n st # ys) st i_d n_d out_d"
  defines "E \<equiv> encode_digits 36 (e_delta st) (e_bias st)"
  defines "st1 \<equiv> encode_each basic (e_n st) st"
  defines "cnt \<equiv> int (length (filter (\<lambda>c. c \<le> e_n st) xs))"
  shows "e_output st1 = e_output st @ E"
    and "\<forall>c\<in>set E. is_digit_code c"
    and "e_n st1 = e_n st"
    and "sim basic (xs @ [e_n st]) ys st1 (cnt + 1) (e_n st)
           (filter (\<lambda>c. c \<le> e_n st) (xs @ [e_n st]) @ filter (\<lambda>c. c < e_n st) ys)"
    and "decode_loop (pre @ E @ rest) (length pre) i_d (e_bias st) n_d out_d
       = decode_loop (pre @ E @ rest) (length pre + length E) (cnt + 1) (e_bias st1) (e_n st)
           (filter (\<lambda>c. c \<le> e_n st) (xs @ [e_n st]) @ filter (\<lambda>c. c < e_n st) ys)"
proof -
  define n where "n = e_n st"
  define h where "h = e_h st"
  define delta where "delta = e_delta st"
  note sd = simD[OF s]
  have out: "out_d = filter (\<lambda>c. c \<le> n) xs @ filter (\<lambda>c. c < n) ys"
    using sd(4) by (simp add: n_def)
  have hl: "h = int (length out_d)" using sd(5) by (simp add: h_def)
  have cl: "0 \<le> cnt" "cnt \<le> int (length out_d)" by (simp_all add: cnt_def out n_def)
  have nd: "128 \<le> n_d" "n_d \<le> n" using sd(1,2) by (simp_all add: n_def)
  have nb: "n \<le> 0x10FFFF" using valid by (simp add: n_def)
  have d0: "0 \<le> delta" "0 \<le> i_d" using sd(7,8) by (simp_all add: delta_def)
  have eq: "i_d + delta = (n - n_d) * (int (length out_d) + 1) + cnt"
    using sd(9) by (simp only: delta_def n_def cnt_def sd(5))
  have bb: "e_bias st \<le> 234" by (rule sd(11))
  have ft: "(i_d = 0) = (h = basic)" using sd(10) by (simp only: h_def)
  have hb: "basic \<le> h" using sd(6) by (simp only: h_def)
  have "length out_d \<le> length xs + length ys"
    unfolding out length_append by (intro add_mono length_filter_le)
  then have ol: "length out_d \<le> 1926" using len by simp
  have a0: "0 \<le> n - n_d" "n - n_d \<le> 1113983" using nd nb by simp_all
  have "(n - n_d) * (int (length out_d) + 1) \<le> 1113983 * 1927"
    using a0 ol by (intro mult_mono) simp_all
  then have mx: "i_d + delta \<le> MAX_INTEGER" using eq cl ol by simp
  have dm: "delta \<le> MAX_INTEGER" using mx d0 by simp
  have st1: "st1 = st\<lparr>e_output := e_output st @ E,
                      e_bias := adapt delta (h + 1) (h = basic),
                      e_delta := 0, e_h := h + 1\<rparr>"
    by (simp add: st1_def encode_each_def Let_def E_def delta_def h_def)
  show "e_output st1 = e_output st @ E" by (simp add: st1)
  show "\<forall>c\<in>set E. is_digit_code c"
    unfolding E_def using encode_digits_codes[of "e_delta st" 36 "e_bias st"] d0(1) dm
    by (simp add: delta_def)
  show "e_n st1 = e_n st" by (simp add: st1)
  have ab: "adapt delta (h + 1) (h = basic) \<le> 234"
    using d0(1) dm hl by (intro adapt_bound) simp_all
  have tk: "take (nat cnt) out_d @ n # drop (nat cnt) out_d
      = filter (\<lambda>c. c \<le> n) (xs @ [n]) @ filter (\<lambda>c. c < n) ys"
    by (simp add: out cnt_def n_def)
  show "sim basic (xs @ [e_n st]) ys st1 (cnt + 1) (e_n st)
           (filter (\<lambda>c. c \<le> e_n st) (xs @ [e_n st]) @ filter (\<lambda>c. c < e_n st) ys)"
    using nd nb hb cl ab
    by (simp add: sim_def st1 n_def[symmetric] hl out cnt_def)
  have "decode_loop (pre @ encode_digits 36 delta (e_bias st) @ rest) (length pre) i_d (e_bias st) n_d out_d
       = decode_loop (pre @ encode_digits 36 delta (e_bias st) @ rest)
           (length pre + length (encode_digits 36 delta (e_bias st)))
           (cnt + 1) (adapt delta (int (length out_d) + 1) (i_d = 0)) (n_d + (n - n_d))
           (take (nat cnt) out_d @ (n_d + (n - n_d)) # drop (nat cnt) out_d)"
    using d0 eq cl a0 mx bb nb ol by (intro decode_loop_step) simp_all
  then show "decode_loop (pre @ E @ rest) (length pre) i_d (e_bias st) n_d out_d
       = decode_loop (pre @ E @ rest) (length pre + length E) (cnt + 1) (e_bias st1) (e_n st)
           (filter (\<lambda>c. c \<le> e_n st) (xs @ [e_n st]) @ filter (\<lambda>c. c < e_n st) ys)"
    using tk by (simp add: E_def delta_def[symmetric] st1 ft hl[symmetric] n_def[symmetric])
qed

lemma sim_skip:
  assumes "sim basic xs (c # ys) st i_d n_d out_d" "c \<noteq> e_n st"
  shows "sim basic (xs @ [c]) ys (encode_each basic c st) i_d n_d out_d"
    and "e_output (encode_each basic c st) = e_output st"
    and "e_n (encode_each basic c st) = e_n st"
    and "e_bias (encode_each basic c st) = e_bias st"
proof -
  have st1: "encode_each basic c st = st\<lparr>e_delta := e_delta st + (if c < e_n st then 1 else 0)\<rparr>"
    using assms(2) by (simp add: encode_each_def Let_def)
  show "sim basic (xs @ [c]) ys (encode_each basic c st) i_d n_d out_d"
    using assms by (cases "c < e_n st") (auto simp: sim_def st1)
  show "e_output (encode_each basic c st) = e_output st" by (simp add: st1)
  show "e_n (encode_each basic c st) = e_n st" by (simp add: st1)
  show "e_bias (encode_each basic c st) = e_bias st" by (simp add: st1)
qed

lemma sim_fold:
  assumes "\<forall>c\<in>set (xs @ ys). 0 \<le> c \<and> c \<le> 0x10FFFF" "length (xs @ ys) \<le> 1927"
      and "sim basic xs ys st i_d n_d out_d"
  shows "\<exists>D i' n' out'.
           e_output (fold (encode_each basic) ys st) = e_output st @ D
         \<and> (\<forall>c\<in>set D. is_digit_code c)
         \<and> e_n (fold (encode_each basic) ys st) = e_n st
         \<and> sim basic (xs @ ys) [] (fold (encode_each basic) ys st) i' n' out'
         \<and> (\<forall>pre rest. decode_loop (pre @ D @ rest) (length pre) i_d (e_bias st) n_d out_d
               = decode_loop (pre @ D @ rest) (length pre + length D) i'
                   (e_bias (fold (encode_each basic) ys st)) n' out')"
  using assms
proof (induction ys arbitrary: xs st i_d n_d out_d)
  case Nil
  have "e_output st = e_output st @ [] \<and> (\<forall>c\<in>set ([]::int list). is_digit_code c)
      \<and> e_n st = e_n st \<and> sim basic (xs @ []) [] st i_d n_d out_d
      \<and> (\<forall>pre rest. decode_loop (pre @ [] @ rest) (length pre) i_d (e_bias st) n_d out_d
            = decode_loop (pre @ [] @ rest) (length pre + length ([]::int list)) i_d (e_bias st) n_d out_d)"
    using Nil.prems(3) by simp
  then show ?case by (simp only: fold_simps id_apply) blast
next
  case (Cons c ys)
  let ?st1 = "encode_each basic c st"
  have v: "\<forall>c\<in>set ((xs @ [c]) @ ys). 0 \<le> c \<and> c \<le> 0x10FFFF" using Cons.prems(1) by simp
  have l: "length ((xs @ [c]) @ ys) \<le> 1927" using Cons.prems(2) by simp
  have fo: "fold (encode_each basic) (c # ys) st = fold (encode_each basic) ys ?st1" by simp
  show ?case
  proof (cases "c = e_n st")
    case False
    note sk = sim_skip[OF Cons.prems(3) False]
    from Cons.IH[OF v l sk(1)] obtain D i' n' out' where
      r: "e_output (fold (encode_each basic) ys ?st1) = e_output ?st1 @ D"
         "\<forall>c\<in>set D. is_digit_code c"
         "e_n (fold (encode_each basic) ys ?st1) = e_n ?st1"
         "sim basic ((xs @ [c]) @ ys) [] (fold (encode_each basic) ys ?st1) i' n' out'"
         "\<forall>pre rest. decode_loop (pre @ D @ rest) (length pre) i_d (e_bias ?st1) n_d out_d
               = decode_loop (pre @ D @ rest) (length pre + length D) i'
                   (e_bias (fold (encode_each basic) ys ?st1)) n' out'"
      by blast
    show ?thesis
      apply (rule exI[of _ D], rule exI[of _ i'], rule exI[of _ n'], rule exI[of _ out'])
      using r sk by (simp only: fo) simp
  next
    case True
    define E where "E = encode_digits 36 (e_delta st) (e_bias st)"
    define cnt where "cnt = int (length (filter (\<lambda>c. c \<le> e_n st) xs))"
    define o1 where "o1 = filter (\<lambda>c. c \<le> e_n st) (xs @ [e_n st]) @ filter (\<lambda>c. c < e_n st) ys"
    have v0: "\<forall>c\<in>set (xs @ e_n st # ys). 0 \<le> c \<and> c \<le> 0x10FFFF" using Cons.prems(1) True by simp
    have l0: "length (xs @ e_n st # ys) \<le> 1927" using Cons.prems(2) by simp
    have s0: "sim basic xs (e_n st # ys) st i_d n_d out_d" using Cons.prems(3) True by simp
    note em = sim_emit[OF v0 l0 s0, folded E_def cnt_def o1_def True]
    have s1: "sim basic (xs @ [c]) ys ?st1 (cnt + 1) (e_n st) o1"
      using em(4) True by simp
    from Cons.IH[OF v l s1] obtain D i' n' out' where
      r: "e_output (fold (encode_each basic) ys ?st1) = e_output ?st1 @ D"
         "\<forall>c\<in>set D. is_digit_code c"
         "e_n (fold (encode_each basic) ys ?st1) = e_n ?st1"
         "sim basic ((xs @ [c]) @ ys) [] (fold (encode_each basic) ys ?st1) i' n' out'"
         "\<forall>pre rest. decode_loop (pre @ D @ rest) (length pre) (cnt + 1) (e_bias ?st1) (e_n st) o1
               = decode_loop (pre @ D @ rest) (length pre + length D) i'
                   (e_bias (fold (encode_each basic) ys ?st1)) n' out'"
      by blast
    have dec: "\<forall>pre rest. decode_loop (pre @ (E @ D) @ rest) (length pre) i_d (e_bias st) n_d out_d
               = decode_loop (pre @ (E @ D) @ rest) (length pre + length (E @ D)) i'
                   (e_bias (fold (encode_each basic) ys ?st1)) n' out'"
    proof (intro allI)
      fix pre rest
      have "decode_loop (pre @ E @ (D @ rest)) (length pre) i_d (e_bias st) n_d out_d
          = decode_loop (pre @ E @ (D @ rest)) (length pre + length E) (cnt + 1) (e_bias ?st1) (e_n st) o1"
        using em(5)[of pre "D @ rest"] True by simp
      also have "\<dots> = decode_loop ((pre @ E) @ D @ rest) (length (pre @ E)) (cnt + 1) (e_bias ?st1) (e_n st) o1"
        by simp
      also have "\<dots> = decode_loop ((pre @ E) @ D @ rest) (length (pre @ E) + length D) i'
                   (e_bias (fold (encode_each basic) ys ?st1)) n' out'"
        using r(5) by blast
      finally show "decode_loop (pre @ (E @ D) @ rest) (length pre) i_d (e_bias st) n_d out_d
               = decode_loop (pre @ (E @ D) @ rest) (length pre + length (E @ D)) i'
                   (e_bias (fold (encode_each basic) ys ?st1)) n' out'"
        by (simp add: add.assoc)
    qed
    have o: "e_output (fold (encode_each basic) ys ?st1) = e_output st @ (E @ D)"
      using r(1) em(1) True by simp
    have dg: "\<forall>c\<in>set (E @ D). is_digit_code c" using r(2) em(2) by auto
    have en: "e_n (fold (encode_each basic) ys ?st1) = e_n st" using r(3) em(3) True by simp
    show ?thesis
      apply (rule exI[of _ "E @ D"], rule exI[of _ i'], rule exI[of _ n'], rule exI[of _ out'])
      using o dg en r(4) dec by (simp only: fo) simp
  qed
qed

lemma min_fold_le:
  "fold (\<lambda>code m. if n \<le> code \<and> code < m then code else m) xs a \<le> (a::int)"
proof (induction xs arbitrary: a)
  case (Cons x xs)
  let ?f = "\<lambda>code m. if n \<le> code \<and> code < m then code else m"
  have "fold ?f xs (?f x a) \<le> ?f x a" by (rule Cons.IH)
  moreover have "?f x a \<le> a" by simp
  ultimately show ?case by simp
qed simp

lemma min_fold_mem:
  "fold (\<lambda>code m. if n \<le> code \<and> code < m then code else m) xs a = (a::int)
   \<or> (fold (\<lambda>code m. if n \<le> code \<and> code < m then code else m) xs a \<in> set xs
       \<and> n \<le> fold (\<lambda>code m. if n \<le> code \<and> code < m then code else m) xs a)"
proof (induction xs arbitrary: a)
  case (Cons x xs)
  show ?case
    using Cons.IH[of "if n \<le> x \<and> x < a then x else a"] by (auto split: if_splits)
qed simp

lemma min_fold_least:
  "c \<in> set xs \<Longrightarrow> n \<le> c
   \<Longrightarrow> fold (\<lambda>code m. if n \<le> code \<and> code < m then code else m) xs a \<le> (c::int)"
proof (induction xs arbitrary: a)
  case (Cons x xs)
  let ?f = "\<lambda>code m. if n \<le> code \<and> code < m then code else m"
  show ?case
  proof (cases "c = x")
    case True
    then have "?f x a \<le> c" using Cons.prems(2) by simp
    then show ?thesis using min_fold_le[of n xs "?f x a"] by simp
  next
    case False
    then have "c \<in> set xs" using Cons.prems(1) by simp
    then show ?thesis using Cons.IH[of "?f x a"] Cons.prems(2) by simp
  qed
qed simp

lemma filter_all_length: "length (filter P xs) = length xs \<Longrightarrow> filter P xs = xs"
proof (induction xs)
  case (Cons x xs)
  show ?case
  proof (cases "P x")
    case True
    then show ?thesis using Cons by simp
  next
    case False
    then have "length (filter P xs) = Suc (length xs)" using Cons.prems by simp
    then show ?thesis using length_filter_le[of P xs] by simp
  qed
qed simp

lemma filter_less_le_length:
  fixes m :: int
  assumes "m \<in> set xs"
  shows "length (filter (\<lambda>c. c < m) xs) < length (filter (\<lambda>c. c \<le> m) xs)"
  using assms
proof (induction xs)
  case (Cons x xs)
  have mono: "length (filter (\<lambda>c. c < m) xs) \<le> length (filter (\<lambda>c. c \<le> m) xs)"
    by (induction xs) auto
  show ?case
  proof (cases "x = m")
    case True
    then show ?thesis using mono by simp
  next
    case False
    then have "m \<in> set xs" using Cons.prems by simp
    then show ?thesis using Cons.IH by auto
  qed
qed simp

lemma sim_loop:
  assumes "\<forall>c\<in>set cps. 0 \<le> c \<and> c \<le> 0x10FFFF" "length cps \<le> 1927"
      and "sim basic [] cps st i_d n_d out_d"
      and "nonBasic = filter (\<lambda>code. 0x80 \<le> code) cps"
  shows "\<exists>D st'. encode_loop cps nonBasic basic st = Some st'
           \<and> e_output st' = e_output st @ D
           \<and> (\<forall>c\<in>set D. is_digit_code c)
           \<and> (\<forall>pre. decode_loop (pre @ D) (length pre) i_d (e_bias st) n_d out_d = Inr cps)"
  using assms(3)
proof (induction "nat (int (length cps) - e_h st)" arbitrary: st i_d n_d out_d rule: less_induct)
  case less
  note sd = simD[OF less.prems]
  define n where "n = e_n st"
  have out: "out_d = filter (\<lambda>c. c < n) cps" using sd(4) by (simp add: n_def)
  have hl: "e_h st = int (length out_d)" by (rule sd(5))
  show ?case
  proof (cases "e_h st < int (length cps)")
    case False
    have "length (filter (\<lambda>c. c < n) cps) \<le> length cps" by (rule length_filter_le)
    moreover have "\<not> int (length (filter (\<lambda>c. c < n) cps)) < int (length cps)"
      using False hl out by simp
    ultimately have "length (filter (\<lambda>c. c < n) cps) = length cps" by linarith
    then have "out_d = cps" unfolding out by (rule filter_all_length)
    then have dec: "\<forall>pre. decode_loop (pre @ []) (length pre) i_d (e_bias st) n_d out_d = Inr cps"
      by (subst decode_loop.simps) simp
    have "encode_loop cps nonBasic basic st = Some st"
      using False by (subst encode_loop.simps) simp
    then show ?thesis using dec by (intro exI[of _ "[]"] exI[of _ st]) simp
  next
    case True
    define m where "m = fold (\<lambda>code m. if n \<le> code \<and> code < m then code else m) nonBasic 0x110000"
    define st1 where "st1 = st\<lparr>e_delta := e_delta st + (m - n) * (e_h st + 1), e_n := m\<rparr>"
    define st2 where "st2 = fold (encode_each basic) cps st1"
    define st3 where "st3 = st2\<lparr>e_delta := e_delta st2 + 1, e_n := e_n st2 + 1\<rparr>"
    have step: "encode_loop cps nonBasic basic st = encode_loop cps nonBasic basic st3"
      using True
      by (subst encode_loop.simps) (simp add: Let_def st3_def st2_def st1_def m_def n_def)
    have n128: "128 \<le> n" using sd(1,2) by (simp add: n_def)
    \<comment> \<open>some code point is at least \<open>n\<close>\<close>
    have "filter (\<lambda>c. c < n) cps \<noteq> cps" using True hl out by auto
    then obtain c0 where c0: "c0 \<in> set cps" "n \<le> c0"
      by (metis filter_True linorder_not_le)
    have c0nb: "c0 \<in> set nonBasic" using c0 n128 by (simp add: assms(4))
    have "m \<le> c0" unfolding m_def using c0nb c0(2) by (rule min_fold_least)
    moreover have "c0 \<le> 0x10FFFF" using assms(1) c0(1) by simp
    ultimately have mne: "m \<noteq> 0x110000" by simp
    then have mm: "m \<in> set nonBasic" "n \<le> m"
      using min_fold_mem[of n nonBasic "0x110000"] by (simp_all add: m_def)
    have mc: "m \<in> set cps" using mm(1) by (simp add: assms(4))
    have mb: "m \<le> 0x10FFFF" using assms(1) mc by simp
    have least: "\<forall>c\<in>set cps. n \<le> c \<longrightarrow> m \<le> c"
    proof (intro ballI impI)
      fix c assume c: "c \<in> set cps" "n \<le> c"
      then have "c \<in> set nonBasic" using n128 by (simp add: assms(4))
      then show "m \<le> c" unfolding m_def using c(2) by (rule min_fold_least)
    qed
    have fe: "filter (\<lambda>c. c < m) cps = filter (\<lambda>c. c < n) cps"
    proof (rule filter_cong[OF refl])
      fix c assume "c \<in> set cps"
      then show "(c < m) = (c < n)" using least mm(2) by auto
    qed
    have s1: "sim basic [] cps st1 i_d n_d out_d"
    proof -
      have "0 \<le> (m - n) * (e_h st + 1)" using mm(2) hl by simp
      then have "0 \<le> e_delta st + (m - n) * (e_h st + 1)" using sd(7) by simp
      moreover have "i_d + (e_delta st + (m - n) * (e_h st + 1)) = (m - n_d) * (e_h st + 1)"
        using sd(9) by (simp add: n_def algebra_simps)
      ultimately show ?thesis
        using sd mm(2) mb by (simp add: sim_def st1_def fe out n_def)
    qed
    from sim_fold[of "[]" cps basic st1 i_d n_d out_d] assms(1,2) s1
    obtain D1 i2 n2 out2 where
      r: "e_output st2 = e_output st1 @ D1"
         "\<forall>c\<in>set D1. is_digit_code c"
         "e_n st2 = e_n st1"
         "sim basic cps [] st2 i2 n2 out2"
         "\<forall>pre rest. decode_loop (pre @ D1 @ rest) (length pre) i_d (e_bias st1) n_d out_d
               = decode_loop (pre @ D1 @ rest) (length pre + length D1) i2 (e_bias st2) n2 out2"
      unfolding st2_def by auto
    note sd2 = simD[OF r(4)]
    have n2m: "e_n st2 = m" using r(3) by (simp add: st1_def)
    have out2: "out2 = filter (\<lambda>c. c \<le> m) cps" using sd2(4) by (simp add: n2m)
    have h2: "e_h st2 = int (length out2)" by (rule sd2(5))
    have s3: "sim basic [] cps st3 i2 n2 out2"
    proof -
      have "filter (\<lambda>c. c \<le> m) cps = filter (\<lambda>c. c < m + 1) cps"
        by (rule filter_cong) auto
      moreover have "i2 + (e_delta st2 + 1) = (m + 1 - n2) * (e_h st2 + 1)"
        using sd2(9) by (simp add: n2m h2 out2 algebra_simps)
      ultimately show ?thesis
        using sd2 mb by (simp add: sim_def st3_def n2m out2)
    qed
    have "length (filter (\<lambda>c. c < m) cps) < length (filter (\<lambda>c. c \<le> m) cps)"
      using mc by (rule filter_less_le_length)
    then have "e_h st < e_h st3" by (simp add: st3_def h2 out2 hl out fe)
    then have lt: "nat (int (length cps) - e_h st3) < nat (int (length cps) - e_h st)"
      using True by simp
    from less.hyps[OF lt s3] obtain D2 st' where
      q: "encode_loop cps nonBasic basic st3 = Some st'"
         "e_output st' = e_output st3 @ D2"
         "\<forall>c\<in>set D2. is_digit_code c"
         "\<forall>pre. decode_loop (pre @ D2) (length pre) i2 (e_bias st3) n2 out2 = Inr cps"
      by blast
    have o: "e_output st' = e_output st @ (D1 @ D2)"
      using q(2) r(1) by (simp add: st3_def st1_def)
    have dec: "\<forall>pre. decode_loop (pre @ (D1 @ D2)) (length pre) i_d (e_bias st) n_d out_d = Inr cps"
    proof
      fix pre
      have "decode_loop (pre @ D1 @ D2) (length pre) i_d (e_bias st1) n_d out_d
          = decode_loop (pre @ D1 @ D2) (length pre + length D1) i2 (e_bias st2) n2 out2"
        using r(5) by blast
      also have "\<dots> = decode_loop ((pre @ D1) @ D2) (length (pre @ D1)) i2 (e_bias st3) n2 out2"
        by (simp add: st3_def)
      also have "\<dots> = Inr cps" using q(4) by blast
      finally show "decode_loop (pre @ (D1 @ D2)) (length pre) i_d (e_bias st) n_d out_d = Inr cps"
        by (simp add: st1_def)
    qed
    show ?thesis
      using q(1) o r(2) q(3) dec
      by (intro exI[of _ "D1 @ D2"] exI[of _ st']) (auto simp: step)
  qed
qed

lemma utf16_pair:
  fixes c l :: "16 word"
  assumes "0xD800 \<le> uint c" "uint c \<le> 0xDBFF" "0xDC00 \<le> uint l" "uint l \<le> 0xDFFF"
  shows "utf16 ((uint c - 0xD800) * 0x400 + (uint l - 0xDC00) + 0x10000) = [c, l]"
proof -
  define a where "a = uint c - 0xD800"
  define b where "b = uint l - 0xDC00"
  have ab: "0 \<le> a" "a \<le> 0x3FF" "0 \<le> b" "b < 0x400" using assms by (simp_all add: a_def b_def)
  have d: "(a * 0x400 + b) div 0x400 = a" "(a * 0x400 + b) mod 0x400 = b"
    using div_mod_decomp_int[of b "0x400" a] ab by simp_all
  have "0 \<le> a * 0x400" using ab by simp
  then have big: "\<not> a * 0x400 + b + 0x10000 < 0x10000" using ab by simp
  have "utf16 (a * 0x400 + b + 0x10000) = [word_of_int (0xD800 + a), word_of_int (0xDC00 + b)]"
    using big d by (simp add: utf16_def)
  also have "\<dots> = [c, l]" by (simp add: a_def b_def)
  finally show ?thesis by (simp add: a_def b_def)
qed

lemma ucs2_round_trip:
  "no_unpaired_surrogate s \<Longrightarrow>
     \<exists>cps. ucs2_decode s = Inr cps \<and> fromCodePoint cps = Inr s
          \<and> (\<forall>c\<in>set cps. 0 \<le> c \<and> c \<le> 0x10FFFF)"
proof (induction s rule: ucs2_decode.induct)
  case 1
  show ?case by simp
next
  case (2 c)
  have "uint c < 2 ^ 16" using uint_bounded[of c] by simp
  then show ?case using 2 by (auto simp: utf16_unit)
next
  case (3 c l rest)
  show ?case
  proof (cases "0xD800 \<le> uint c \<and> uint c \<le> 0xDBFF")
    case True
    then have lo: "0xDC00 \<le> uint l" "uint l \<le> 0xDFFF" and r: "no_unpaired_surrogate rest"
      using "3.prems" by simp_all
    from "3.IH"(1)[OF True r] obtain cps where
      t: "ucs2_decode rest = Inr cps" "fromCodePoint cps = Inr rest"
         "\<forall>c\<in>set cps. 0 \<le> c \<and> c \<le> 0x10FFFF" by blast
    define cp where "cp = (uint c - 0xD800) * 0x400 + (uint l - 0xDC00) + 0x10000"
    have "0 \<le> (uint c - 0xD800) * 0x400" "(uint c - 0xD800) * 0x400 \<le> 0x3FF * 0x400"
      using True by simp_all
    then have cpb: "0 \<le> cp" "cp \<le> 0x10FFFF" using lo by (simp_all add: cp_def)
    have u: "utf16 cp = [c, l]" unfolding cp_def using True lo by (intro utf16_pair) simp_all
    have "ucs2_decode (c # l # rest) = Inr (cp # cps)" using True t(1) by (simp add: cp_def)
    moreover have "fromCodePoint (cp # cps) = Inr (c # l # rest)" using cpb t(2) u by simp
    moreover have "\<forall>c\<in>set (cp # cps). 0 \<le> c \<and> c \<le> 0x10FFFF" using cpb t(3) by simp
    ultimately show ?thesis by blast
  next
    case False
    then have ns: "\<not> (0xDC00 \<le> uint c \<and> uint c \<le> 0xDFFF)" and r: "no_unpaired_surrogate (l # rest)"
      using "3.prems" by simp_all
    from "3.IH"(3)[OF False ns r] obtain cps where
      t: "ucs2_decode (l # rest) = Inr cps" "fromCodePoint cps = Inr (l # rest)"
         "\<forall>c\<in>set cps. 0 \<le> c \<and> c \<le> 0x10FFFF" by blast
    have ub: "0 \<le> uint c" "uint c < 2 ^ 16" using uint_bounded[of c] by simp_all
    have "ucs2_decode (c # l # rest) = Inr (uint c # cps)" using False ns t(1) by auto
    moreover have "fromCodePoint (uint c # cps) = Inr (c # l # rest)"
      using ub t(2) by (simp add: utf16_unit)
    moreover have "\<forall>x\<in>set (uint c # cps). 0 \<le> x \<and> x \<le> 0x10FFFF" using ub t(3) by simp
    ultimately show ?thesis by blast
  qed
qed

lemma uint_word_of_int_16: "0 \<le> c \<Longrightarrow> c < 65536 \<Longrightarrow> uint (word_of_int c :: 16 word) = c"
  by (simp add: uint_word_of_int)

lemma map_uint_fromCharCode:
  "\<forall>c\<in>set cs. 0 \<le> c \<and> c < 65536 \<Longrightarrow> map uint (fromCharCode cs) = cs"
  by (induction cs) (simp_all add: fromCharCode_def uint_word_of_int_16)

lemma digit_code_not_delimiter:
  assumes "\<forall>c\<in>set D. is_digit_code c"
  shows "(0x2D :: 16 word) \<notin> set (fromCharCode D)"
proof
  assume "(0x2D :: 16 word) \<in> set (fromCharCode D)"
  then obtain c where c: "c \<in> set D" "(word_of_int c :: 16 word) = 0x2D"
    by (auto simp: fromCharCode_def)
  have r: "0 \<le> c" "c < 65536" "c \<noteq> 45" using assms c(1) by (auto simp: is_digit_code_def)
  have "uint (word_of_int c :: 16 word) = c" using r by (intro uint_word_of_int_16)
  then show False using c(2) r(3) by simp
qed

lemma decode_unfold:
  "input \<noteq> [] \<Longrightarrow>
   decode input =
     (case decode_loop (map uint input) (nat (lastIndexOf input 0x2D + 1)) 0 72 128
             (take (if nat (lastIndexOf input 0x2D + 1) \<noteq> 0
                    then nat (lastIndexOf input 0x2D + 1) - 1 else 0) (map uint input)) of
        Inl e \<Rightarrow> Inl e
      | Inr out \<Rightarrow> fromCodePoint out)"
  unfolding decode_def Let_def INITIAL_BIAS_def INITIAL_N_def by (simp only: if_False)

section \<open>A digit stream that runs out\<close>

lemma int_le_div_iff: "0 < w \<Longrightarrow> (d \<le> a div w) = (d * w \<le> (a::int))"
proof
  assume w: "0 < w" and d: "d \<le> a div w"
  have "d * w \<le> (a div w) * w" using d w by (intro mult_right_mono) simp_all
  also have "\<dots> \<le> a"
  proof -
    have "a = (a div w) * w + a mod w" by simp
    moreover have "0 \<le> a mod w" using w by simp
    ultimately show ?thesis by linarith
  qed
  finally show "d * w \<le> a" .
next
  assume "0 < w" "d * w \<le> a"
  then show "d \<le> a div w" by (intro int_le_div)
qed

lemma decode_digits_unterminated:
  assumes "0 \<le> i" "i \<le> MAX_INTEGER" "1 \<le> w" "w \<le> MAX_INTEGER" "b \<le> length inp"
      and "no_terminal_digit (map digit_of (drop b inp)) k bias"
  shows "decode_digits inp b i k w bias
         = (if guards_pass (map digit_of (drop b inp)) i k w bias
            then Inl MalformedInput else Inl Overflow)"
  using assms
proof (induction "length inp - b" arbitrary: b i k w)
  case 0
  then show ?case by (simp add: decode_digits.simps)
next
  case (Suc m)
  have lt: "b < length inp" using Suc.hyps(2) by simp
  define d where "d = digit_of (inp ! b)"
  define t where "t = threshold k bias"
  define x where "x = 36 - t"
  have dr: "drop b inp = inp ! b # drop (Suc b) inp" using lt by (simp add: Cons_nth_drop_Suc)
  have tb: "1 \<le> t" "t \<le> 26" using threshold_bounds[of k bias] by (simp_all add: t_def)
  have xb: "10 \<le> x" "x \<le> 35" using tb by (simp_all add: x_def)
  have nt: "t \<le> d" and rest: "no_terminal_digit (map digit_of (drop (Suc b) inp)) (k + 36) bias"
    using Suc.prems(6) by (simp_all add: dr d_def t_def)
  have d1: "1 \<le> d" using nt tb by simp
  have gp: "guards_pass (map digit_of (drop b inp)) i k w bias
      = (d < 36 \<and> i + d * w \<le> MAX_INTEGER \<and> w * x \<le> MAX_INTEGER
         \<and> guards_pass (map digit_of (drop (Suc b) inp)) (i + d * w) (k + 36) (w * x) bias)"
    by (simp add: dr d_def t_def x_def)
  have a0: "0 \<le> MAX_INTEGER - i" using Suc.prems(2) by simp
  have "(MAX_INTEGER - i) div w \<le> MAX_INTEGER - i"
    using a0 Suc.prems(3) by (intro int_div_le_self) simp_all
  then have "(MAX_INTEGER - i) div w < 2 ^ 31" using Suc.prems(1) by simp
  then have td1: "tilde_div (of_int (MAX_INTEGER - i)) (of_int w) = (MAX_INTEGER - i) div w"
    using a0 Suc.prems(1,3,4) by (intro tilde_div_int) simp_all
  have g1: "((MAX_INTEGER - i) div w < d) = (\<not> i + d * w \<le> MAX_INTEGER)"
    using int_le_div_iff[of w d "MAX_INTEGER - i"] Suc.prems(3) by auto
  have "MAX_INTEGER div x \<le> MAX_INTEGER" using xb by (intro int_div_le_self) simp_all
  then have "MAX_INTEGER div x < 2 ^ 31" by simp
  then have td2: "tilde_div (of_int MAX_INTEGER) (of_int x) = MAX_INTEGER div x"
    using xb by (intro tilde_div_int) simp_all
  have g2: "(MAX_INTEGER div x < w) = (\<not> w * x \<le> MAX_INTEGER)"
    using int_le_div_iff[of x w MAX_INTEGER] xb by auto
  show ?case
  proof (cases "d < 36 \<and> i + d * w \<le> MAX_INTEGER \<and> w * x \<le> MAX_INTEGER")
    case False
    then show ?thesis using lt nt
      by (subst decode_digits.simps)
         (auto simp: Let_def gp d_def[symmetric] t_def[symmetric] x_def[symmetric]
            td1[simplified] td2[simplified] g1[simplified] g2[simplified])
  next
    case True
    have i2: "0 \<le> i + d * w" using Suc.prems(1,3) d1 by simp
    have w2: "1 \<le> w * x" using Suc.prems(3) xb by (smt (verit) mult_le_cancel_left1)
    have IH: "decode_digits inp (Suc b) (i + d * w) (k + 36) (w * x) bias
        = (if guards_pass (map digit_of (drop (Suc b) inp)) (i + d * w) (k + 36) (w * x) bias
           then Inl MalformedInput else Inl Overflow)"
      using Suc.hyps(2) i2 True w2 lt rest by (intro Suc.hyps(1)) simp_all
    have "decode_digits inp b i k w bias
        = decode_digits inp (Suc b) (i + d * w) (k + 36) (w * x) bias"
      using lt nt True
      by (subst decode_digits.simps)
         (simp add: Let_def d_def[symmetric] t_def[symmetric] x_def[symmetric]
            td1[simplified] td2[simplified] g1[simplified] g2[simplified])
    then show ?thesis using IH True by (simp add: gp)
  qed
qed

lemma decode_loop_unterminated:
  assumes "b < length inp" "0 \<le> i" "i \<le> MAX_INTEGER"
      and "no_terminal_digit (map digit_of (drop b inp)) BASE bias"
  shows "decode_loop inp b i bias n output
         = (if guards_pass (map digit_of (drop b inp)) i BASE 1 bias
            then Inl MalformedInput else Inl Overflow)"
proof -
  have "decode_digits inp b i 36 1 bias
         = (if guards_pass (map digit_of (drop b inp)) i 36 1 bias
            then Inl MalformedInput else Inl Overflow)"
    using assms by (intro decode_digits_unterminated) simp_all
  then show ?thesis using assms(1) by (subst decode_loop.simps) simp
qed

section \<open>A label of 1928 code points\<close>

text \<open>
  1927 letters \<open>a\<close> followed by U+10FFFF: the first \<open>delta\<close> of \<open>encode\<close> is
  \<open>(0x10FFFF - 128) * 1928 + 1927 = 2147761151\<close>, above \<open>MAX_INTEGER\<close>.
\<close>

lemma ucs2_decode_plain:
  assumes "\<not> (0xD800 \<le> uint c \<and> uint c \<le> 0xDFFF)"
  shows "ucs2_decode (c # xs) = (case ucs2_decode xs of Inl e \<Rightarrow> Inl e | Inr out \<Rightarrow> Inr (uint c # out))"
  using assms by (cases xs) auto

lemma ucs2_decode_replicate_a:
  "ucs2_decode (replicate k 0x61 @ xs)
     = (case ucs2_decode xs of Inl e \<Rightarrow> Inl e | Inr out \<Rightarrow> Inr (replicate k 0x61 @ out))"
  by (induction k) (simp_all add: ucs2_decode_plain split: sum.splits)

lemma fold_encode_each_below:
  "c < e_n st \<Longrightarrow> fold (encode_each basic) (replicate k c) st = st\<lparr>e_delta := e_delta st + int k\<rparr>"
proof (induction k arbitrary: st)
  case 0
  show ?case by simp
next
  case (Suc k)
  have "encode_each basic c st = st\<lparr>e_delta := e_delta st + 1\<rparr>"
    using Suc.prems by (simp add: encode_each_def Let_def)
  then show ?case using Suc.IH[of "st\<lparr>e_delta := e_delta st + 1\<rparr>"] Suc.prems
    by (simp add: replicate_app_Cons_same)
qed

lemma encode_digits_long: "encode_digits 36 2147761151 72 = [108, 111, 56, 56, 51, 52, 54, 111]"
  by code_simp

lemma encode_long:
  "encode (replicate 1927 0x61 @ [0xDBFF, 0xDFFF])
     = Some (Inr (replicate 1927 0x61 @ js ''-lo88346o''))"
proof -
  let ?cps = "replicate 1927 (0x61::int) @ [0x10FFFF]"
  have u: "ucs2_decode (replicate 1927 0x61 @ [0xDBFF, 0xDFFF]) = Inr ?cps"
    by (simp add: ucs2_decode_replicate_a)
  let ?st0 = "\<lparr>e_output = replicate 1927 0x61 @ [45], e_delta = 0, e_bias = 72,
                e_n = 128, e_h = 1927\<rparr>"
  let ?st1 = "\<lparr>e_output = replicate 1927 0x61 @ [45], e_delta = 2147759224, e_bias = 72,
                e_n = 0x10FFFF, e_h = 1927\<rparr>"
  have f1: "fold (encode_each 1927) (replicate 1927 0x61) ?st1 = ?st1\<lparr>e_delta := e_delta ?st1 + int 1927\<rparr>"
    by (rule fold_encode_each_below) simp
  have "fold (encode_each 1927) ?cps ?st1
      = encode_each 1927 0x10FFFF (fold (encode_each 1927) (replicate 1927 0x61) ?st1)"
    by (simp only: fold_append fold_simps comp_apply)
  also have "\<dots> = encode_each 1927 0x10FFFF (?st1\<lparr>e_delta := e_delta ?st1 + int 1927\<rparr>)"
    by (simp only: f1)
  also have "\<dots> = \<lparr>e_output = replicate 1927 0x61 @ [45] @ [108, 111, 56, 56, 51, 52, 54, 111],
         e_delta = 0, e_bias = adapt 2147761151 1928 True, e_n = 0x10FFFF, e_h = 1928\<rparr>"
    by (simp add: encode_each_def Let_def encode_digits_long)
  finally have f2: "fold (encode_each 1927) ?cps ?st1
      = \<lparr>e_output = replicate 1927 0x61 @ [45] @ [108, 111, 56, 56, 51, 52, 54, 111],
         e_delta = 0, e_bias = adapt 2147761151 1928 True, e_n = 0x10FFFF, e_h = 1928\<rparr>" .
  have l: "encode_loop ?cps [0x10FFFF] 1927 ?st0
      = Some \<lparr>e_output = replicate 1927 0x61 @ [45] @ [108, 111, 56, 56, 51, 52, 54, 111],
         e_delta = 1, e_bias = adapt 2147761151 1928 True, e_n = 0x110000, e_h = 1928\<rparr>"
    apply (subst encode_loop.simps)
    apply (simp add: Let_def f2 del: fold_append fold_replicate)
    apply (subst encode_loop.simps)
    apply simp
    done
  show ?thesis
    by (simp add: encode_def u Let_def l fromCharCode_def js_def)
qed

lemma decode_digits_shift:
  "decode_digits (xs @ ys) (length xs + b) i k w bias
     = (case decode_digits ys b i k w bias of Inl e \<Rightarrow> Inl e | Inr (i', b') \<Rightarrow> Inr (i', length xs + b'))"
proof (induction "length ys - b" arbitrary: b i k w)
  case 0
  then show ?case by (simp add: decode_digits.simps)
next
  case (Suc d)
  have IH: "\<And>j kk ww. decode_digits (xs @ ys) (length xs + Suc b) j kk ww bias
     = (case decode_digits ys (Suc b) j kk ww bias of Inl e \<Rightarrow> Inl e | Inr (i', b') \<Rightarrow> Inr (i', length xs + b'))"
    using Suc.hyps(2) by (intro Suc.hyps(1)) simp
  have lt: "b < length ys" using Suc.hyps(2) by simp
  show ?case
    apply (subst decode_digits.simps)
    apply (subst (2) decode_digits.simps)
    using lt IH by (simp add: Let_def nth_append)
qed

lemma decode_digits_long:
  "decode_digits [45, 108, 111, 56, 56, 51, 52, 54, 111] 1 0 36 1 72 = Inl Overflow"
  by code_simp

lemma decode_long:
  "decode (replicate 1927 0x61 @ js ''-lo88346o'') = Inl Overflow"
proof -
  have li: "lastIndexOf (replicate 1927 0x61 @ js ''-lo88346o'') 0x2D = 1927"
    using lastIndexOf_last[of "0x2D" "js ''lo88346o''" "replicate 1927 0x61"]
    by (simp add: js_def)
  let ?inp = "replicate 1927 (0x61::int) @ [45, 108, 111, 56, 56, 51, 52, 54, 111]"
  have m: "map uint (replicate 1927 0x61 @ js ''-lo88346o'') = ?inp"
    by (simp add: js_def)
  have "decode_digits ?inp (length (replicate 1927 (0x61::int)) + 1) 0 36 1 72
      = (case decode_digits [45, 108, 111, 56, 56, 51, 52, 54, 111] 1 0 36 1 72 of
           Inl e \<Rightarrow> Inl e
         | Inr (i', b') \<Rightarrow> Inr (i', length (replicate 1927 (0x61::int)) + b'))"
    by (rule decode_digits_shift)
  also have "\<dots> = Inl Overflow" by (simp only: decode_digits_long sum.case)
  also have "length (replicate 1927 (0x61::int)) + 1 = 1928" by simp
  finally have dd: "decode_digits ?inp 1928 0 36 1 72 = Inl Overflow" .
  have "decode_loop ?inp 1928 0 72 128 (replicate 1927 0x61) = Inl Overflow"
    by (subst decode_loop.simps) (simp add: dd)
  then show ?thesis
    by (simp add: decode_def li m Let_def del: map_append map_replicate replicate_eq_replicate)
qed

lemma no_unpaired_replicate_a:
  "no_unpaired_surrogate (replicate k 0x61 @ [0xDBFF, 0xDFFF])"
proof (induction k)
  case 0
  show ?case by simp
next
  case (Suc k)
  obtain l rest where e: "replicate k (0x61 :: 16 word) @ [0xDBFF, 0xDFFF] = l # rest"
    by (cases "replicate k (0x61 :: 16 word) @ [0xDBFF, 0xDFFF]") simp_all
  show ?case using Suc.IH by (simp add: e)
qed

lemma encode_loop_stuck:
  assumes run: "encode_loop input nonBasic basic st = Some r"
  shows "\<not> (input = [0x110001] \<and> nonBasic = [0x110001] \<and> e_h st = 0)"
proof (rule encode_loop.raw_induct
    [where P = "\<lambda>input nonBasic basic st r.
        \<not> (input = [0x110001] \<and> nonBasic = [0x110001] \<and> e_h st = 0)", OF _ run])
  fix f :: "int list \<Rightarrow> int list \<Rightarrow> int \<Rightarrow> enc_state \<Rightarrow> enc_state option"
  fix input nonBasic :: "int list" and basic :: int and st r :: enc_state
  assume IH: "\<And>a b c d y. f a b c d = Some y
      \<Longrightarrow> \<not> (a = [0x110001] \<and> b = [0x110001] \<and> e_h d = 0)"
  assume body: "(if e_h st < int (length input) then
        f input nonBasic basic
          (let m = fold (\<lambda>code m. if e_n st \<le> code \<and> code < m then code else m) nonBasic 0x110000;
               st1 = st\<lparr>e_delta := e_delta st + (m - e_n st) * (e_h st + 1), e_n := m\<rparr>;
               st2 = fold (encode_each basic) input st1
           in st2\<lparr>e_delta := e_delta st2 + 1, e_n := e_n st2 + 1\<rparr>)
      else Some st) = Some r"
  show "\<not> (input = [0x110001] \<and> nonBasic = [0x110001] \<and> e_h st = 0)"
  proof
    assume a: "input = [0x110001] \<and> nonBasic = [0x110001] \<and> e_h st = 0"
    define st' where "st' = (let m = fold (\<lambda>code m. if e_n st \<le> code \<and> code < m then code else m) nonBasic 0x110000;
               st1 = st\<lparr>e_delta := e_delta st + (m - e_n st) * (e_h st + 1), e_n := m\<rparr>;
               st2 = fold (encode_each basic) input st1
           in st2\<lparr>e_delta := e_delta st2 + 1, e_n := e_n st2 + 1\<rparr>)"
    have "f input nonBasic basic st' = Some r"
      using body a unfolding st'_def by simp
    then have "\<not> (input = [0x110001] \<and> nonBasic = [0x110001] \<and> e_h st' = 0)"
      by (rule IH)
    moreover have "e_h st' = 0"
      using a by (simp add: st'_def Let_def encode_each_def)
    ultimately show False using a by simp
  qed
qed


section \<open>The claims\<close>

text \<open>
  C1, as amended. For every string \<open>s\<close> of at most 1927 code points, with at least one
  code point \<open>\<ge> 0x80\<close> and no unpaired surrogate half, \<open>encode(s)\<close> returns and
  \<open>decode(encode(s))\<close> returns \<open>s\<close>. (With 1928 code points \<open>delta\<close> can pass
  \<open>MAX_INTEGER\<close>, and \<open>decode\<close> then rejects what \<open>encode\<close> returned.)
\<close>

theorem encode_decode_round_trip:
  assumes wf: "no_unpaired_surrogate s"
      and cps: "ucs2_decode s = Inr cps"
      and nb: "\<exists>c\<in>set cps. 0x80 \<le> c"
      and len: "length cps \<le> 1927"
  shows "\<exists>p. encode s = Some (Inr p) \<and> decode p = Inr s"
proof -
  from ucs2_round_trip[OF wf] cps have
    rt: "fromCodePoint cps = Inr s" and valid: "\<forall>c\<in>set cps. 0 \<le> c \<and> c \<le> 0x10FFFF"
    by simp_all
  have cne: "cps \<noteq> []" using nb by auto
  have sne: "s \<noteq> []" using cps cne by auto
  define B where "B = filter (\<lambda>code. code < 0x80) cps"
  define nonBasic where "nonBasic = filter (\<lambda>code. 0x80 \<le> code) cps"
  define basic where "basic = int (length B)"
  define output1 where "output1 = (if 0 < basic then B @ [DELIMITER_CODE] else B)"
  define st0 where "st0 = \<lparr>e_output = output1, e_delta = 0, e_bias = INITIAL_BIAS,
                        e_n = INITIAL_N, e_h = basic\<rparr>"
  have s0: "sim basic [] cps st0 0 128 B"
    by (simp add: sim_def st0_def B_def basic_def)
  from sim_loop[OF valid len s0 nonBasic_def] obtain D st' where
    r: "encode_loop cps nonBasic basic st0 = Some st'"
       "e_output st' = e_output st0 @ D"
       "\<forall>c\<in>set D. is_digit_code c"
       "\<forall>pre. decode_loop (pre @ D) (length pre) 0 (e_bias st0) 128 B = Inr cps"
    by blast
  define p where "p = fromCharCode (output1 @ D)"
  have "encode s = map_option (\<lambda>st. Inr (fromCharCode (e_output st)))
                     (encode_loop cps nonBasic basic st0)"
    using sne
    by (simp add: encode_def cps Let_def B_def nonBasic_def basic_def output1_def st0_def)
  also have "\<dots> = Some (Inr (fromCharCode (e_output st0 @ D)))" by (simp add: r(1,2))
  also have "e_output st0 = output1" by (simp add: st0_def)
  finally have enc: "encode s = Some (Inr p)" by (simp add: p_def)
  have Bb: "\<forall>c\<in>set B. 0 \<le> c \<and> c < 0x80" using valid by (auto simp: B_def)
  have Db: "\<forall>c\<in>set D. 0 \<le> c \<and> c < 65536" using r(3) by (auto simp: is_digit_code_def)
  have ob: "\<forall>c\<in>set (output1 @ D). 0 \<le> c \<and> c < 65536"
    using Bb Db by (auto simp: output1_def)
  have inp: "map uint p = output1 @ D" unfolding p_def using ob by (rule map_uint_fromCharCode)
  have nodelim: "(0x2D :: 16 word) \<notin> set (fromCharCode D)"
    using r(3) by (rule digit_code_not_delimiter)
  have dl: "decode_loop (map uint p) (nat (lastIndexOf p 0x2D + 1)) 0 72 128
              (take (if nat (lastIndexOf p 0x2D + 1) \<noteq> 0 then nat (lastIndexOf p 0x2D + 1) - 1 else 0)
                 (map uint p)) = Inr cps \<and> p \<noteq> []"
  proof (cases "0 < basic")
    case True
    have pe: "p = fromCharCode B @ 0x2D # fromCharCode D"
      using True by (simp add: p_def output1_def fromCharCode_def)
    have li: "lastIndexOf p 0x2D = int (length B)"
      unfolding pe using lastIndexOf_last[OF nodelim, of "fromCharCode B"]
      by (simp add: fromCharCode_def)
    have pne: "p \<noteq> []" by (simp add: pe)
    have "decode_loop ((B @ [45]) @ D) (length (B @ [45])) 0 (e_bias st0) 128 B = Inr cps"
      using r(4) by blast
    moreover have "nat (int (length B) + 1) = Suc (length B)" by simp
    ultimately show ?thesis using True pne
      by (simp add: li inp output1_def st0_def)
  next
    case False
    then have Be: "B = []" by (simp add: basic_def)
    have pe: "p = fromCharCode D" using False by (simp add: p_def output1_def Be)
    have d: "decode_loop D 0 0 72 128 [] = Inr cps"
      using r(4)[rule_format, of "[]"] by (simp add: st0_def Be)
    have "D \<noteq> []"
    proof
      assume "D = []"
      then have "decode_loop D 0 0 72 128 [] = Inr []" by (subst decode_loop.simps) simp
      then show False using d cne by simp
    qed
    then have pne: "p \<noteq> []" by (simp add: pe fromCharCode_def)
    have li: "lastIndexOf p 0x2D = - 1"
      unfolding pe using nodelim by (rule lastIndexOf_absent)
    show ?thesis using d pne False by (simp add: li inp output1_def Be)
  qed
  have pne: "p \<noteq> []" using dl by (rule conjunct2)
  have dl1: "decode_loop (map uint p) (nat (lastIndexOf p 0x2D + 1)) 0 72 128
              (take (if nat (lastIndexOf p 0x2D + 1) \<noteq> 0 then nat (lastIndexOf p 0x2D + 1) - 1 else 0)
                 (map uint p)) = Inr cps"
    using dl by (rule conjunct1)
  have "decode p = Inr s"
    by (simp only: decode_unfold[OF pne] dl1 sum.case rt)
  then show ?thesis using enc by blast
qed

theorem encode_decode_round_trip_witness:
  "encode [0x61, 0xD83D, 0xDE00, 0xFC] = Some (Inr (js ''a-eha39859a''))
   \<and> decode (js ''a-eha39859a'') = Inr [0x61, 0xD83D, 0xDE00, 0xFC]"
proof -
  let ?s = "[0x61, 0xD83D, 0xDE00, 0xFC] :: jsstring"
  have h1: "no_unpaired_surrogate ?s" by simp
  have h2: "ucs2_decode ?s = Inr [0x61, 0x1F600, 0xFC]" by simp
  have h3: "\<exists>c\<in>set [0x61, 0x1F600, 0xFC :: int]. 0x80 \<le> c" by simp
  have h4: "length [0x61, 0x1F600, 0xFC :: int] \<le> 1927" by simp
  have e: "encode ?s = Some (Inr (js ''a-eha39859a''))" by code_simp
  from encode_decode_round_trip[OF h1 h2 h3 h4] obtain p where
    p: "encode ?s = Some (Inr p)" "decode p = Inr ?s" by blast
  have "p = js ''a-eha39859a''" using p(1) e by simp
  then show ?thesis using e p(2) by simp
qed

theorem round_trip_1928_counterexample:
  "no_unpaired_surrogate (replicate 1927 0x61 @ [0xDBFF, 0xDFFF])
   \<and> ucs2_decode (replicate 1927 0x61 @ [0xDBFF, 0xDFFF]) = Inr (replicate 1927 0x61 @ [0x10FFFF])
   \<and> encode (replicate 1927 0x61 @ [0xDBFF, 0xDFFF])
       = Some (Inr (replicate 1927 0x61 @ js ''-lo88346o''))
   \<and> decode (replicate 1927 0x61 @ js ''-lo88346o'') = Inl Overflow"
proof (intro conjI)
  show "no_unpaired_surrogate (replicate 1927 0x61 @ [0xDBFF, 0xDFFF])"
    by (rule no_unpaired_replicate_a)
  show "ucs2_decode (replicate 1927 0x61 @ [0xDBFF, 0xDFFF]) = Inr (replicate 1927 0x61 @ [0x10FFFF])"
    by (simp add: ucs2_decode_replicate_a)
  show "encode (replicate 1927 0x61 @ [0xDBFF, 0xDFFF])
       = Some (Inr (replicate 1927 0x61 @ js ''-lo88346o''))"
    by (rule encode_long)
  show "decode (replicate 1927 0x61 @ js ''-lo88346o'') = Inl Overflow"
    by (rule decode_long)
qed

text \<open>
  C2 (the code departs from the claim). The claim: for non-negative integer arguments
  \<open>adapt\<close> computes its first step with a truncating integer division and so agrees
  with the exact-integer reference definition of RFC 3492. The source writes
  \<open>delta / DAMP\<close> without \<open>~~\<close>, so the fraction of \<open>761 / 700\<close> survives into the
  last quotient: \<open>adapt(761, 2, true)\<close> is 1 where the reference gives 0.
\<close>

theorem adapt_keeps_fraction:
  "adapt 761 2 True = 1 \<and> adapt_rfc 761 2 True = 0"
  by code_simp


text \<open>
  C8. \<open>encode\<close> applied to \<open>ma\<close>, U+00F1, \<open>ana\<close> returns exactly \<open>maana-pta\<close>, and
  \<open>decode\<close> applied to \<open>maana-pta\<close> returns exactly \<open>ma\<close>, U+00F1, \<open>ana\<close>.
\<close>

theorem known_vector:
  "encode (js ''ma'' @ [0xF1] @ js ''ana'') = Some (Inr (js ''maana-pta''))
   \<and> decode (js ''maana-pta'') = Inr (js ''ma'' @ [0xF1] @ js ''ana'')"
  by code_simp


text \<open>
  C3 (the code departs from the claim). The claim: a high surrogate that is not followed
  by a unit in \<open>0xDC00 .. 0xDFFF\<close> makes the conversion used by \<open>encode\<close> fail with
  \<open>UnpairedSurrogate\<close>. The source only tests \<open>isNaN(low)\<close>, the end of the string: on
  \<open>0xD800\<close> followed by the letter \<open>a\<close> the conversion returns the code point
  \<open>0x2461\<close>, and \<open>encode\<close> returns \<open>prh\<close>.
\<close>

theorem high_surrogate_takes_any_unit:
  "ucs2_decode [0xD800, 0x61] = Inr [0x2461]
   \<and> encode [0xD800, 0x61] = Some (Inr (js ''prh''))"
  by code_simp


text \<open>
  C4 (the code departs from the claim). The claim: \<open>encode\<close> checks the step
  \<open>delta += (m - n) * (h + 1)\<close> against \<open>2 ^ 31 - 1\<close> and fails with \<open>Overflow\<close>.
  \<open>encode\<close> has no such check: it never raises \<open>Overflow\<close>, and on 1927 letters \<open>a\<close>
  followed by U+10FFFF, where that product alone is above \<open>MAX_INTEGER\<close>, it returns a
  string.
\<close>

theorem encode_has_no_overflow_check:
  "encode s \<noteq> Some (Inl Overflow)
   \<and> MAX_INTEGER < (0x10FFFF - INITIAL_N) * (1927 + 1)
   \<and> encode (replicate 1927 0x61 @ [0xDBFF, 0xDFFF])
       = Some (Inr (replicate 1927 0x61 @ js ''-lo88346o''))"
proof (intro conjI)
  have "ucs2_decode s \<noteq> Inl Overflow"
    by (induction s rule: ucs2_decode.induct) (auto split: sum.splits)
  then show "encode s \<noteq> Some (Inl Overflow)"
    by (auto simp: encode_def Let_def split: sum.splits)
  show "MAX_INTEGER < (0x10FFFF - INITIAL_N) * (1927 + 1)" by simp
  show "encode (replicate 1927 0x61 @ [0xDBFF, 0xDFFF])
       = Some (Inr (replicate 1927 0x61 @ js ''-lo88346o''))"
    by (rule encode_long)
qed

text \<open>
  C5, as amended. An input whose last character is the delimiter has an empty digit
  stream and decodes to the characters before that delimiter, without an error (so
  \<open>decode("a-")\<close> is \<open>"a"\<close>). When \<open>decode\<close> starts a generalized integer, from any state
  of its outer loop with \<open>0 \<le> i \<le> MAX_INTEGER\<close> (as in every state the loop reaches), and
  the input ends before a terminal digit is found (no remaining character is a digit
  below the threshold of its position), \<open>decode\<close> returns no string: it fails with
  \<open>MalformedInput\<close> if the overflow guards let every remaining digit through, and with
  \<open>Overflow\<close> otherwise. This holds in particular for
  the first integer of an input, with or without a basic prefix: \<open>a-b\<close>, \<open>a-bb\<close> and
  \<open>b\<close> fail with \<open>MalformedInput\<close>, \<open>99999999\<close> fails with \<open>Overflow\<close>.
\<close>

theorem decode_digit_stream:
  "decode (p @ [0x2D]) = Inr p
   \<and> (b < length inp \<and> 0 \<le> i \<and> i \<le> MAX_INTEGER
        \<and> no_terminal_digit (map digit_of (drop b inp)) BASE bias
      \<longrightarrow> decode_loop inp b i bias n output
            = (if guards_pass (map digit_of (drop b inp)) i BASE 1 bias
               then Inl MalformedInput else Inl Overflow))
   \<and> (ds \<noteq> [] \<and> 0x2D \<notin> set ds
        \<and> no_terminal_digit (map digit_of (map uint ds)) BASE INITIAL_BIAS
      \<longrightarrow> decode (p @ 0x2D # ds)
            = (if guards_pass (map digit_of (map uint ds)) 0 BASE 1 INITIAL_BIAS
               then Inl MalformedInput else Inl Overflow)
          \<and> decode ds
            = (if guards_pass (map digit_of (map uint ds)) 0 BASE 1 INITIAL_BIAS
               then Inl MalformedInput else Inl Overflow))"
proof (intro conjI impI)
  have li: "lastIndexOf (p @ [0x2D]) 0x2D = int (length p)"
    using lastIndexOf_last[of "0x2D" "[]" p] by simp
  have b: "nat (int (length p) + 1) = Suc (length p)" by simp
  have "decode_loop (map uint p @ [45]) (Suc (length p)) 0 INITIAL_BIAS INITIAL_N (map uint p)
      = Inr (map uint p)"
    by (subst decode_loop.simps) simp
  then show "decode (p @ [0x2D]) = Inr p"
    by (simp add: decode_def li b Let_def fromCodePoint_units)
next
  assume "b < length inp \<and> 0 \<le> i \<and> i \<le> MAX_INTEGER
        \<and> no_terminal_digit (map digit_of (drop b inp)) BASE bias"
  then show "decode_loop inp b i bias n output
            = (if guards_pass (map digit_of (drop b inp)) i BASE 1 bias
               then Inl MalformedInput else Inl Overflow)"
    by (intro decode_loop_unterminated) simp_all
next
  assume a: "ds \<noteq> [] \<and> 0x2D \<notin> set ds
        \<and> no_terminal_digit (map digit_of (map uint ds)) BASE INITIAL_BIAS"
  let ?r = "if guards_pass (map digit_of (map uint ds)) 0 BASE 1 INITIAL_BIAS
               then Inl MalformedInput else Inl Overflow :: error + jsstring"
  let ?rl = "if guards_pass (map digit_of (map uint ds)) 0 BASE 1 INITIAL_BIAS
               then Inl MalformedInput else Inl Overflow :: error + int list"
  have li: "lastIndexOf (p @ 0x2D # ds) 0x2D = int (length p)"
    using a by (intro lastIndexOf_last) simp
  have b: "nat (int (length p) + 1) = Suc (length p)" by simp
  let ?inp = "map uint p @ 45 # map uint ds"
  have dr: "drop (Suc (length p)) ?inp = map uint ds" by simp
  have "decode_loop ?inp (Suc (length p)) 0 INITIAL_BIAS INITIAL_N (map uint p) = ?rl"
    using decode_loop_unterminated[of "Suc (length p)" ?inp 0 INITIAL_BIAS INITIAL_N "map uint p"] a
    by (simp only: dr) simp
  then show "decode (p @ 0x2D # ds) = ?r"
    by (simp add: decode_def li b Let_def)
  have li2: "lastIndexOf ds 0x2D = - 1" using a by (intro lastIndexOf_absent) simp
  have "decode_loop (map uint ds) 0 0 INITIAL_BIAS INITIAL_N [] = ?rl"
    using decode_loop_unterminated[of 0 "map uint ds" 0 INITIAL_BIAS INITIAL_N "[]"] a by simp
  then show "decode ds = ?r"
    using a by (simp add: decode_def li2 Let_def)
qed

theorem decode_digit_stream_witness:
  "decode (js ''a-'') = Inr (js ''a'')
   \<and> decode (js ''a-b'') = Inl MalformedInput
   \<and> decode (js ''a-bb'') = Inl MalformedInput
   \<and> decode (js ''b'') = Inl MalformedInput
   \<and> decode (js ''99999999'') = Inl Overflow
   \<and> decode (js ''a-99999999'') = Inl Overflow
   \<and> decode_loop (map uint (js ''maana-pta9'')) 9 3 0 241 [109, 97, 241, 97, 110, 97]
       = Inl MalformedInput"
proof -
  have t: "threshold 36 72 = 1" "threshold 72 72 = 1" "threshold 36 0 = 26"
    "\<And>k. 98 \<le> k \<Longrightarrow> threshold k 72 = 26"
    by (simp_all add: threshold_def)
  have b1: "js ''b'' \<noteq> [] \<and> 0x2D \<notin> set (js ''b'')
        \<and> no_terminal_digit (map digit_of (map uint (js ''b''))) BASE INITIAL_BIAS"
    by (simp add: js_def digit_of_def t)
  have b2: "js ''bb'' \<noteq> [] \<and> 0x2D \<notin> set (js ''bb'')
        \<and> no_terminal_digit (map digit_of (map uint (js ''bb''))) BASE INITIAL_BIAS"
    by (simp add: js_def digit_of_def t)
  have b9: "js ''99999999'' \<noteq> [] \<and> 0x2D \<notin> set (js ''99999999'')
        \<and> no_terminal_digit (map digit_of (map uint (js ''99999999''))) BASE INITIAL_BIAS"
    by (simp add: js_def digit_of_def t)
  have s: "9 < length (map uint (js ''maana-pta9'')) \<and> (0::int) \<le> 3 \<and> 3 \<le> MAX_INTEGER
        \<and> no_terminal_digit (map digit_of (drop 9 (map uint (js ''maana-pta9'')))) BASE 0"
    by (simp add: js_def digit_of_def t)
  have g1: "guards_pass (map digit_of (map uint (js ''b''))) 0 BASE 1 INITIAL_BIAS"
    by (simp add: js_def digit_of_def t)
  have g2: "guards_pass (map digit_of (map uint (js ''bb''))) 0 BASE 1 INITIAL_BIAS"
    by (simp add: js_def digit_of_def t)
  have g9: "\<not> guards_pass (map digit_of (map uint (js ''99999999''))) 0 BASE 1 INITIAL_BIAS"
    by (simp add: js_def digit_of_def t)
  have gs: "guards_pass (map digit_of (drop 9 (map uint (js ''maana-pta9'')))) 3 BASE 1 0"
    by (simp add: js_def digit_of_def t)
  have e0: "decode (js ''a-'') = Inr (js ''a'')"
    using decode_digit_stream[of "js ''a''"] by (simp add: js_def)
  have e1: "decode (js ''a-b'') = Inl MalformedInput" "decode (js ''b'') = Inl MalformedInput"
    using decode_digit_stream[of "js ''a''" _ _ _ _ _ _ "js ''b''"] b1 g1
    by (simp_all add: js_def)
  have e2: "decode (js ''a-bb'') = Inl MalformedInput"
    using decode_digit_stream[of "js ''a''" _ _ _ _ _ _ "js ''bb''"] b2 g2
    by (simp_all add: js_def)
  have e3: "decode (js ''a-99999999'') = Inl Overflow" "decode (js ''99999999'') = Inl Overflow"
    using decode_digit_stream[of "js ''a''" _ _ _ _ _ _ "js ''99999999''"] b9 g9
    by (simp_all add: js_def)
  have e4: "decode_loop (map uint (js ''maana-pta9'')) 9 3 0 241 [109, 97, 241, 97, 110, 97]
       = Inl MalformedInput"
    using decode_digit_stream[of _ 9 "map uint (js ''maana-pta9'')" 3 0 241 "[109, 97, 241, 97, 110, 97]"]
      s gs by simp
  show ?thesis using e0 e1 e2 e3 e4 by simp
qed

theorem decode_a_delimiter_counterexample:
  "decode (js ''a-'') \<noteq> Inl MalformedInput"
  by code_simp


text \<open>
  C6, as amended. A dot-separated label whose first four characters are exactly the
  lowercase \<open>xn--\<close> is replaced by the Bootstring decoding of the lowercased rest of the
  label; every other label, one that starts with \<open>XN--\<close> or \<open>Xn--\<close> included, is left
  unchanged.
\<close>

theorem unicode_lowercase_prefix_only:
  assumes nodot: "\<forall>l\<in>set ls. 0x2E \<notin> set l"
      and ok: "\<forall>l\<in>set ls. take 4 l = js ''xn--'' \<longrightarrow> (\<exists>r. decode (toLowerCase (drop 4 l)) = Inr r)"
  shows "\<exists>ls'. unicode toLowerCase (js_join 0x2E ls) = Inr (js_join 0x2E ls')
           \<and> length ls' = length ls
           \<and> (\<forall>i<length ls.
                 if take 4 (ls ! i) = js ''xn--''
                 then decode (toLowerCase (drop 4 (ls ! i))) = Inr (ls' ! i)
                 else ls' ! i = ls ! i)"
proof (cases "js_join 0x2E ls = []")
  case True
  then have e: "ls = [] \<or> ls = [[]]" by (rule js_join_empty)
  have u: "unicode toLowerCase (js_join 0x2E ls) = Inr (js_join 0x2E ls)"
    using True by (simp add: unicode_def)
  have "\<forall>i<length ls. take 4 (ls ! i) \<noteq> js ''xn--''"
    using e by (auto simp: js_def)
  then show ?thesis using u by auto
next
  case False
  then have ne: "ls \<noteq> []" by auto
  have sp: "js_split 0x2E (js_join 0x2E ls) = ls"
    using ne nodot by (rule js_split_join)
  obtain ls' where t: "map_raise (\<lambda>l. if take 4 l = js ''xn--'' then decode (toLowerCase (drop 4 l)) else Inr l) ls = Inr ls'"
      "length ls' = length ls"
      "\<forall>i<length ls. if take 4 (ls ! i) = js ''xn--''
         then decode (toLowerCase (drop 4 (ls ! i))) = Inr (ls' ! i) else ls' ! i = ls ! i"
    using map_raise_labels[of ls "\<lambda>l. take 4 l = js ''xn--''" "\<lambda>l. decode (toLowerCase (drop 4 l))"] ok
    by blast
  have "unicode toLowerCase (js_join 0x2E ls) = Inr (js_join 0x2E ls')"
    using False by (simp add: unicode_def sp t(1))
  then show ?thesis using t(2,3) by blast
qed

theorem unicode_lowercase_prefix_only_witness:
  "unicode asciiLower (js_join 0x2E [js ''XN--maana-pta'', js ''xn--maana-pta'', js ''com''])
     = Inr (js_join 0x2E [js ''XN--maana-pta'', js ''ma'' @ [0xF1] @ js ''ana'', js ''com''])"
proof -
  let ?ls = "[js ''XN--maana-pta'', js ''xn--maana-pta'', js ''com'']"
  have h1: "\<forall>l\<in>set ?ls. 0x2E \<notin> set l" by (simp add: js_def)
  have d: "decode (asciiLower (drop 4 (js ''xn--maana-pta''))) = Inr (js ''ma'' @ [0xF1] @ js ''ana'')"
    by code_simp
  have h2: "\<forall>l\<in>set ?ls. take 4 l = js ''xn--'' \<longrightarrow> (\<exists>r. decode (asciiLower (drop 4 l)) = Inr r)"
    using d by (simp add: js_def)
  from unicode_lowercase_prefix_only[OF h1 h2] obtain ls' where
    t: "unicode asciiLower (js_join 0x2E ?ls) = Inr (js_join 0x2E ls')"
       "length ls' = length ?ls"
       "\<forall>i<length ?ls. if take 4 (?ls ! i) = js ''xn--''
          then decode (asciiLower (drop 4 (?ls ! i))) = Inr (ls' ! i) else ls' ! i = ?ls ! i"
    by blast
  have n0: "ls' ! 0 = js ''XN--maana-pta''"
    using t(3)[rule_format, of 0] by (simp add: js_def)
  have n1: "ls' ! 1 = js ''ma'' @ [0xF1] @ js ''ana''"
    using t(3)[rule_format, of 1] d by (simp add: js_def)
  have n2: "ls' ! 2 = js ''com''"
    using t(3)[rule_format, of 2] by (simp add: js_def)
  obtain a b c where abc: "ls' = [a, b, c]"
    using t(2) by (auto simp: length_Suc_conv)
  have "ls' = [ls' ! 0, ls' ! 1, ls' ! 2]"
    by (simp add: abc numeral_2_eq_2)
  then have "ls' = [js ''XN--maana-pta'', js ''ma'' @ [0xF1] @ js ''ana'', js ''com'']"
    by (simp only: n0 n1 n2)
  then show ?thesis using t(1) by simp
qed

theorem unicode_uppercase_prefix_counterexample:
  "take 4 (asciiLower (js ''XN--maana-pta'')) = js ''xn--''
   \<and> unicode asciiLower (js ''XN--maana-pta'') = Inr (js ''XN--maana-pta'')
   \<and> decode (asciiLower (drop 4 (js ''XN--maana-pta''))) = Inr (js ''ma'' @ [0xF1] @ js ''ana'')"
  by code_simp


text \<open>
  C7 (the code departs from the claim). The claim: \<open>ascii\<close> returns every string of
  ASCII characters (\<open>0x00 .. 0x7F\<close>) as it is. The class \<open>[^\0-\x7E]\<close> stops one short
  of \<open>0x7F\<close>: the one-character string \<open>0x7F\<close>, which \<open>encode\<close> itself counts as basic
  (\<open>code < 0x80\<close>), comes back as \<open>xn--\<close>, \<open>0x7F\<close>, \<open>-\<close>, and applying \<open>ascii\<close> to that
  prefixes it once more. Strings with all units up to \<open>0x7E\<close> are returned unchanged
  (\<open>ascii_below_7F_unchanged\<close>).
\<close>

theorem ascii_converts_DEL:
  "uint (0x7F :: 16 word) < 0x80
   \<and> ascii [0x7F] = Some (Inr (js ''xn--'' @ [0x7F, 0x2D]))
   \<and> ascii (js ''xn--'' @ [0x7F, 0x2D]) = Some (Inr (js ''xn--xn--'' @ [0x7F] @ js ''--''))"
  by code_simp

text \<open>
  C9 (the code departs from the claim). The claim: each of the four operations ends on
  every string. \<open>decode\<close> and \<open>unicode\<close> do (their loops consume the input). \<open>encode\<close>
  does not: \<open>0xDBFF\<close> followed by \<open>0xE001\<close> is taken for the code point \<open>0x110001\<close>,
  which the search for \<open>m\<close> below \<open>0x110000\<close> never finds, so \<open>h\<close> stays 0 and the outer
  loop runs for ever; \<open>ascii\<close> calls \<open>encode\<close> on that label.
\<close>

theorem encode_never_returns:
  "encode [0xDBFF, 0xE001] = None \<and> ascii [0xDBFF, 0xE001] = None"
proof -
  have u: "ucs2_decode [0xDBFF, 0xE001] = Inr [0x110001]" by simp
  have "encode_loop [0x110001] [0x110001] 0
      \<lparr>e_output = [], e_delta = 0, e_bias = INITIAL_BIAS, e_n = INITIAL_N, e_h = 0\<rparr> = None"
    using encode_loop_stuck[of "[0x110001]" "[0x110001]" 0
      "\<lparr>e_output = [], e_delta = 0, e_bias = INITIAL_BIAS, e_n = INITIAL_N, e_h = 0\<rparr>"]
    by (cases "encode_loop [0x110001] [0x110001] 0
      \<lparr>e_output = [], e_delta = 0, e_bias = INITIAL_BIAS, e_n = INITIAL_N, e_h = 0\<rparr>") simp_all
  then have e: "encode [0xDBFF, 0xE001] = None" by (simp add: encode_def u)
  then show ?thesis by (simp add: ascii_def Let_def)
qed

text \<open>
  C10 (the code departs from the claim). The claim: \<open>ascii\<close> and \<open>unicode\<close> never insert
  or remove a dot. On 51 copies of \<open>0xDBFF 0xE000\<close> followed by \<open>0xDBFF 0xE001\<close>, a
  string without a dot, \<open>encode\<close> reaches \<open>delta = -51\<close> and pushes \<open>-51 + 0x61\<close>, the
  dot: the result of \<open>ascii\<close> has two labels.
\<close>

theorem ascii_inserts_dot:
  "0x2E \<notin> set (concat (replicate 51 [0xDBFF, 0xE000 :: 16 word]) @ [0xDBFF, 0xE001])
   \<and> ascii (concat (replicate 51 [0xDBFF, 0xE000]) @ [0xDBFF, 0xE001])
       = Some (Inr (js ''xn--en32g'' @ replicate 50 0x61 @ [0x2E] @ replicate 50 0x61))"
  by code_simp

end
